theory Spec2Isabelle
  imports Main "HOL-Library.Word"
begin

unbundle bit_operations_syntax

section \<open>The value model of \<^verbatim>\<open>bindings.h\<close>, as \<^verbatim>\<open>examples/c-bindings.c\<close> reads it\<close>

text \<open>
  A pointer is a 64-bit address (\<^verbatim>\<open>unsigned long\<close> and \<^verbatim>\<open>usize\<close> are 64 bits wide on the
  LP64 platforms the example is built for); the null pointer is address 0. The discriminant
  is a C enum, an \<^verbatim>\<open>int\<close>-sized integer that can hold values outside the enumerators.
\<close>

type_synonym addr = "64 word"
type_synonym Tag = "32 word"

text \<open>
  Modelled from the spec: the enumerators of \<^verbatim>\<open>Tag\<close>. The header \<^verbatim>\<open>bindings.h\<close> is not part
  of the sources, so the enumerators are numbered in the order in which section 6 of the
  specification lists them. The printer only compares them; it depends on nothing but
  their being pairwise distinct.
\<close>

definition Null :: Tag where "Null = 0"
definition True_tag :: Tag where "True_tag = 1"
definition False_tag :: Tag where "False_tag = 2"
definition Number :: Tag where "Number = 3"
definition String :: Tag where "String = 4"
definition Array :: Tag where "Array = 5"
definition Object :: Tag where "Object = 6"

text \<open>
  The structs, with the fields the program reads. The C union of \<^verbatim>\<open>Json\<close> overlays the four
  payloads; the record keeps them side by side, and the printer reads only the member
  selected by the tag, so what the other members hold never matters. The \<^verbatim>\<open>double\<close> is kept
  as its IEEE-754 binary64 bit pattern.
\<close>

record JsonString =
  buf :: addr
  len :: "64 word"

record JsonArray =
  elems :: addr
  len :: "64 word"

record JsonEntry =
  key :: JsonString
  val :: addr

record JsonObject =
  elems :: addr
  len :: "64 word"

record Json =
  tag :: Tag
  number :: "64 word"
  string :: JsonString
  array :: JsonArray
  object :: JsonObject

text \<open>The value with every member zero: tag 0, null pointers, lengths 0.\<close>

definition zero_json :: Json where
  "zero_json =
     \<lparr>tag = 0, number = 0,
      string = \<lparr>JsonString.buf = 0, JsonString.len = 0\<rparr>,
      array = \<lparr>JsonArray.elems = 0, JsonArray.len = 0\<rparr>,
      object = \<lparr>JsonObject.elems = 0, JsonObject.len = 0\<rparr>\<rparr>"

subsection \<open>Memory\<close>

text \<open>
  The store maps the address of an allocation to the run of objects it holds, one map per
  element type. An address outside the domain is not allocated (null or dangling).
  Reading through it, or past the end of the run, is undefined behaviour in C and the
  error \<open>Fault\<close> here.
\<close>

record heap =
  chars :: "addr \<rightharpoonup> char list"
  jsons :: "addr \<rightharpoonup> Json list"
  entries :: "addr \<rightharpoonup> JsonEntry list"

datatype error = Fault | OutOfFuel

definition load_json :: "heap \<Rightarrow> addr \<Rightarrow> 64 word \<Rightarrow> Json option" where
  "load_json h p i =
     (case jsons h p of
        None \<Rightarrow> None
      | Some es \<Rightarrow> if unat i < length es then Some (es ! unat i) else None)"

definition load_entry :: "heap \<Rightarrow> addr \<Rightarrow> 64 word \<Rightarrow> JsonEntry option" where
  "load_entry h p i =
     (case entries h p of
        None \<Rightarrow> None
      | Some es \<Rightarrow> if unat i < length es then Some (es ! unat i) else None)"

definition NUL :: char where
  "NUL = CHR 0x00"

definition dquote :: char where
  "dquote = CHR 0x22"

text \<open>
  What \<^verbatim>\<open>printf("%s", p)\<close> writes: the bytes from \<open>p\<close> up to, and without, the first NUL.
  A buffer with no NUL makes \<^verbatim>\<open>printf\<close> run off its end.
\<close>

definition c_string :: "heap \<Rightarrow> addr \<Rightarrow> string option" where
  "c_string h p =
     (case chars h p of
        None \<Rightarrow> None
      | Some bs \<Rightarrow> if NUL \<in> set bs then Some (takeWhile (\<lambda>c. c \<noteq> NUL) bs) else None)"

text \<open>
  The decoded bytes of a string buffer of the value model: \<open>len\<close> bytes at \<open>buf\<close>, followed by
  a NUL at offset \<open>len\<close>. The length is authoritative; the bytes may contain NUL themselves.
\<close>

definition string_bytes :: "heap \<Rightarrow> JsonString \<Rightarrow> string option" where
  "string_bytes h s =
     (case chars h (buf s) of
        None \<Rightarrow> None
      | Some bs \<Rightarrow>
          if unat (JsonString.len s) < length bs \<and> bs ! unat (JsonString.len s) = NUL
          then Some (take (unat (JsonString.len s)) bs) else None)"

subsection \<open>The \<^verbatim>\<open>%f\<close> conversion of \<^verbatim>\<open>printf\<close>\<close>

text \<open>
  \<^verbatim>\<open>printf("%f", x)\<close> in the C locale, with no precision given: the sign, the integer digits,
  a point and exactly six fractional digits of the exact value of \<open>x\<close>, rounded to the
  nearest multiple of \<open>1/10^6\<close> (ties to even, the default rounding mode). The double is
  decoded from its binary64 bits: bit 63 is the sign, bits 62..52 the biased exponent \<open>e\<close>,
  bits 51..0 the fraction \<open>m\<close>; its magnitude is \<open>m * 2^(-1074)\<close> when \<open>e = 0\<close> and
  \<open>(2^52 + m) * 2^(e - 1075)\<close> otherwise; \<open>e = 2047\<close> is an infinity or a NaN.
\<close>

fun digits :: "nat \<Rightarrow> string" where
  "digits n =
     (if n < 10 then [''0123456789'' ! n]
      else digits (n div 10) @ [''0123456789'' ! (n mod 10)])"

declare digits.simps [simp del]

definition pad6 :: "nat \<Rightarrow> string" where
  "pad6 n = replicate (6 - length (digits n)) (CHR ''0'') @ digits n"

definition round_div :: "nat \<Rightarrow> nat \<Rightarrow> nat" where
  "round_div a d =
     (let q = a div d; r = a mod d
      in if d < 2 * r \<or> (2 * r = d \<and> odd q) then q + 1 else q)"

definition sign_text :: "64 word \<Rightarrow> string" where
  "sign_text x = (if bit x 63 then ''-'' else [])"

definition exponent_field :: "64 word \<Rightarrow> nat" where
  "exponent_field x = unat (drop_bit 52 x AND 0x7FF)"

definition fraction_field :: "64 word \<Rightarrow> nat" where
  "fraction_field x = unat (x AND 0xFFFFFFFFFFFFF)"

text \<open>The magnitude \<open>M * 2^E\<close> with six fractional digits.\<close>

definition fixed6 :: "nat \<Rightarrow> int \<Rightarrow> string" where
  "fixed6 M E =
     (let q = (if E < 0 then round_div (M * 10 ^ 6) (2 ^ nat (- E))
               else M * 10 ^ 6 * 2 ^ nat E)
      in digits (q div 10 ^ 6) @ ''.'' @ pad6 (q mod 10 ^ 6))"

definition printf_f :: "64 word \<Rightarrow> string" where
  "printf_f x =
     (let e = exponent_field x; m = fraction_field x
      in if e = 2047 then sign_text x @ (if m = 0 then ''inf'' else ''nan'')
         else if e = 0 then sign_text x @ fixed6 m (- 1074)
         else sign_text x @ fixed6 (2 ^ 52 + m) (int e - 1075))"

section \<open>The printer\<close>

text \<open>
  Standard output is threaded through as the bytes written so far; every \<^verbatim>\<open>printf\<close> appends
  to it. The recursion follows pointers, so it is bounded by fuel: one unit per nested call
  of \<^verbatim>\<open>json_print\<close>. The two \<^verbatim>\<open>for\<close> loops are functions of the index \<open>i\<close>, an
  \<^verbatim>\<open>unsigned long\<close>; \<open>len - 1\<close> is the wrapping subtraction of the source.
\<close>

function json_print :: "nat \<Rightarrow> heap \<Rightarrow> Json \<Rightarrow> string \<Rightarrow> error + string"
  and array_loop :: "nat \<Rightarrow> heap \<Rightarrow> JsonArray \<Rightarrow> 64 word \<Rightarrow> string \<Rightarrow> error + string"
  and object_loop :: "nat \<Rightarrow> heap \<Rightarrow> JsonObject \<Rightarrow> 64 word \<Rightarrow> string \<Rightarrow> error + string"
where
  "json_print 0 h json out = Inl OutOfFuel"
| "json_print (Suc n) h json out =
     (if tag json = Array then
        (case array_loop n h (array json) 0 (out @ ''['') of
           Inl err \<Rightarrow> Inl err
         | Inr out' \<Rightarrow> Inr (out' @ '']''))
      else if tag json = Number then Inr (out @ printf_f (number json))
      else if tag json = Object then
        (case object_loop n h (object json) 0 (out @ ''{'') of
           Inl err \<Rightarrow> Inl err
         | Inr out' \<Rightarrow> Inr (out' @ ''}''))
      else if tag json = String then
        (case c_string h (buf (string json)) of
           None \<Rightarrow> Inl Fault
         | Some s \<Rightarrow> Inr (out @ [dquote] @ s @ [dquote]))
      else if tag json = True_tag then Inr (out @ ''true'')
      else if tag json = False_tag then Inr (out @ ''false'')
      else if tag json = Null then Inr (out @ ''null'')
      else Inr out)"
| "array_loop n h a i out =
     (if i < JsonArray.len a then
        (case load_json h (JsonArray.elems a) i of
           None \<Rightarrow> Inl Fault
         | Some e \<Rightarrow>
             (case json_print n h e out of
                Inl err \<Rightarrow> Inl err
              | Inr out' \<Rightarrow>
                  array_loop n h a (i + 1)
                    (if i < JsonArray.len a - 1 then out' @ '', '' else out')))
      else Inr out)"
| "object_loop n h ob i out =
     (if i < JsonObject.len ob then
        (case load_entry h (JsonObject.elems ob) i of
           None \<Rightarrow> Inl Fault
         | Some en \<Rightarrow>
             (case c_string h (buf (key en)) of
                None \<Rightarrow> Inl Fault
              | Some s \<Rightarrow>
                  (case load_json h (val en) 0 of
                     None \<Rightarrow> Inl Fault
                   | Some v \<Rightarrow>
                       (case json_print n h v (out @ s @ '' : '') of
                          Inl err \<Rightarrow> Inl err
                        | Inr out' \<Rightarrow>
                            object_loop n h ob (i + 1)
                              (if i < JsonObject.len ob - 1 then out' @ '', '' else out')))))
      else Inr out)"
  by pat_completeness auto

termination
proof (relation "(\<lambda>x. case x of Inl (n, _) \<Rightarrow> n | Inr (Inl (n, _)) \<Rightarrow> n | Inr (Inr (n, _)) \<Rightarrow> n)
      <*mlex*> measure (\<lambda>x. case x of Inl _ \<Rightarrow> 0
         | Inr (Inl (_, _, a, i, _)) \<Rightarrow> Suc (unat (JsonArray.len a) - unat i)
         | Inr (Inr (_, _, ob, i, _)) \<Rightarrow> Suc (unat (JsonObject.len ob) - unat i))", goal_cases)
  case 1
  show ?case by (simp add: wf_mlex)
next
  case 2
  show ?case by (simp add: mlex_less)
next
  case 3
  show ?case by (simp add: mlex_less)
next
  case (4 n h a i out x2)
  show ?case by (simp add: mlex_leq)
next
  case (5 n h a i out x2 x2a)
  have "\<And>k m :: 64 word. k < m \<Longrightarrow> unat m - unat (k + 1) < unat m - unat k"
    by unat_arith
  with 5(1) show ?case by (simp add: mlex_leq)
next
  case (6 n h ob i out x2 x2a x2b)
  show ?case by (simp add: mlex_leq)
next
  case (7 n h ob i out x2 x2a x2b x2c)
  have "\<And>k m :: 64 word. k < m \<Longrightarrow> unat m - unat (k + 1) < unat m - unat k"
    by unat_arith
  with 7(1) show ?case by (simp add: mlex_leq)
qed

declare json_print.simps [simp del] array_loop.simps [simp del] object_loop.simps [simp del]

section \<open>Rendering rules\<close>

text \<open>
  The separator rule of the rendering rules for arrays and objects: the items in order, the
  two characters \<open>, \<close> between consecutive items and nothing after the last one.
\<close>

fun sep_join :: "string list \<Rightarrow> string" where
  "sep_join [] = []"
| "sep_join [r] = r"
| "sep_join (r # rs) = r @ '', '' @ sep_join rs"

text \<open>An object entry: the key text, the three characters \<open> : \<close>, the rendering of the value.\<close>

definition entry_text :: "string \<times> string \<Rightarrow> string" where
  "entry_text kv = fst kv @ '' : '' @ snd kv"

section \<open>Trees in memory\<close>

text \<open>
  The tree that a \<^verbatim>\<open>Json\<close> value and the memory behind its pointers stand for: the tag, the
  payload selected by the tag, the lengths and the contents pointed to, and nothing else
  (no address, no inactive union member, no byte behind a string's terminator). A node
  with an unknown discriminant is a leaf.
\<close>

datatype jtree =
    TNull
  | TTrue
  | TFalse
  | TNumber "64 word"
  | TString string
  | TArray "jtree list"
  | TObject "(string \<times> jtree) list"
  | TOther Tag

text \<open>
  \<open>repr h j t\<close>: in the heap \<open>h\<close> the value \<open>j\<close> is the root of the finite tree \<open>t\<close>. Array
  elements are the \<open>len\<close> values at \<open>elems\<close>, object entries the \<open>len\<close> entries at \<open>elems\<close>,
  each with its key buffer and the value behind its \<open>val\<close> pointer. With \<open>len = 0\<close> nothing
  is required of \<open>elems\<close>.
\<close>

function repr :: "heap \<Rightarrow> Json \<Rightarrow> jtree \<Rightarrow> bool" where
  "repr h j TNull = (tag j = Null)"
| "repr h j TTrue = (tag j = True_tag)"
| "repr h j TFalse = (tag j = False_tag)"
| "repr h j (TNumber x) = (tag j = Number \<and> number j = x)"
| "repr h j (TString s) = (tag j = String \<and> string_bytes h (string j) = Some s)"
| "repr h j (TArray ts) =
     (tag j = Array \<and> unat (JsonArray.len (array j)) = length ts \<and>
      (\<forall>k<length ts.
         case load_json h (JsonArray.elems (array j)) (of_nat k) of
           None \<Rightarrow> False
         | Some e \<Rightarrow> repr h e (ts ! k)))"
| "repr h j (TObject kvs) =
     (tag j = Object \<and> unat (JsonObject.len (object j)) = length kvs \<and>
      (\<forall>k<length kvs.
         case load_entry h (JsonObject.elems (object j)) (of_nat k) of
           None \<Rightarrow> False
         | Some en \<Rightarrow>
             string_bytes h (key en) = Some (fst (kvs ! k)) \<and>
             (case load_json h (val en) 0 of
                None \<Rightarrow> False
              | Some v \<Rightarrow> repr h v (snd (kvs ! k)))))"
| "repr h j (TOther t) =
     (tag j = t \<and> t \<notin> {Null, True_tag, False_tag, Number, String, Array, Object})"
  by pat_completeness auto

termination
proof (relation "measure (\<lambda>(h, j, t). size t)", goal_cases)
  case 1
  show ?case by simp
next
  case (2 h j ts k e)
  then have "ts ! k \<in> set ts"
    by simp
  then have "size (ts ! k) \<le> size_list size ts"
    by (rule size_list_estimation') simp
  then show ?case
    by simp
next
  case (3 h j kvs k en v)
  then have "kvs ! k \<in> set kvs"
    by simp
  moreover have "size (snd (kvs ! k)) \<le> size_prod (\<lambda>x. 0) size (kvs ! k)"
    by (cases "kvs ! k") simp
  ultimately have "size (snd (kvs ! k)) \<le> size_list (size_prod (\<lambda>x. 0) size) kvs"
    by (rule size_list_estimation')
  then show ?case
    by simp
qed

text \<open>The nesting depth of a tree, which bounds the recursion depth of the printer.\<close>

fun max_list :: "nat list \<Rightarrow> nat" where
  "max_list [] = 0"
| "max_list (x # xs) = max x (max_list xs)"

fun depth :: "jtree \<Rightarrow> nat" where
  "depth (TArray ts) = Suc (max_list (map depth ts))"
| "depth (TObject kvs) = Suc (max_list (map (\<lambda>kv. depth (snd kv)) kvs))"
| "depth _ = 0"

text \<open>
  The text of a tree according to the rendering rules; for a string or a key, the bytes
  before the first NUL.
\<close>

fun render :: "jtree \<Rightarrow> string" where
  "render TNull = ''null''"
| "render TTrue = ''true''"
| "render TFalse = ''false''"
| "render (TNumber x) = printf_f x"
| "render (TString s) = [dquote] @ takeWhile (\<lambda>c. c \<noteq> NUL) s @ [dquote]"
| "render (TArray ts) = ''['' @ sep_join (map render ts) @ '']''"
| "render (TObject kvs) =
     ''{'' @ sep_join (map (\<lambda>kv. entry_text (takeWhile (\<lambda>c. c \<noteq> NUL) (fst kv), render (snd kv))) kvs) @ ''}''"
| "render (TOther t) = []"

section \<open>Deserialization and release\<close>

text \<open>
  \<^verbatim>\<open>json_deserialize\<close> and \<^verbatim>\<open>json_free\<close> are exported by the library behind \<^verbatim>\<open>bindings.h\<close>;
  the example only calls them. This section models them from the specification of the
  boundary (sections 3, 4.2, 5, 6 and 9), with an instrumented allocator.
\<close>

datatype alloc_error = OutOfMemory | NotAValue | BadFree | BadRead | NoFuel

text \<open>
  Modelled from the spec: the private pool that \<^verbatim>\<open>json_deserialize\<close> allocates from and
  \<^verbatim>\<open>json_free\<close> returns to (section 4.2: "allocates memory from a private pool"; section 5:
  "Deserialize and Release must agree on an allocator"). The pool hands out addresses in
  increasing order from \<open>next_free\<close>; the live allocations are the domains of the three
  maps of the store. Two counters instrument it: the number of allocations made and the
  number of allocations released.
\<close>

record pool =
  store :: heap
  next_free :: addr
  allocated :: nat
  freed :: nat

text \<open>
  Modelled from the spec: allocation of a run of bytes, of values or of object entries in
  the pool. It fails when the address space is used up or the run is too long for a
  \<open>usize\<close> length (section 7, kind Allocation).
\<close>

definition alloc_chars :: "char list \<Rightarrow> pool \<Rightarrow> alloc_error + addr \<times> pool" where
  "alloc_chars bs s =
     (if next_free s = - 1 \<or> 2 ^ 64 < length bs then Inl OutOfMemory
      else Inr (next_free s,
        s\<lparr>store := (store s)\<lparr>chars := (chars (store s))(next_free s \<mapsto> bs)\<rparr>,
          next_free := next_free s + 1, allocated := allocated s + 1\<rparr>))"

definition alloc_jsons :: "Json list \<Rightarrow> pool \<Rightarrow> alloc_error + addr \<times> pool" where
  "alloc_jsons es s =
     (if next_free s = - 1 \<or> 2 ^ 64 \<le> length es then Inl OutOfMemory
      else Inr (next_free s,
        s\<lparr>store := (store s)\<lparr>jsons := (jsons (store s))(next_free s \<mapsto> es)\<rparr>,
          next_free := next_free s + 1, allocated := allocated s + 1\<rparr>))"

definition alloc_entries :: "JsonEntry list \<Rightarrow> pool \<Rightarrow> alloc_error + addr \<times> pool" where
  "alloc_entries es s =
     (if next_free s = - 1 \<or> 2 ^ 64 \<le> length es then Inl OutOfMemory
      else Inr (next_free s,
        s\<lparr>store := (store s)\<lparr>entries := (entries (store s))(next_free s \<mapsto> es)\<rparr>,
          next_free := next_free s + 1, allocated := allocated s + 1\<rparr>))"

text \<open>
  Modelled from the spec: the release of one allocation. Releasing an address that is not
  live, which is what a second release of the same allocation does, is the error
  \<open>BadFree\<close>.
\<close>

definition free_chars :: "addr \<Rightarrow> pool \<Rightarrow> alloc_error + pool" where
  "free_chars p s =
     (case chars (store s) p of
        None \<Rightarrow> Inl BadFree
      | Some _ \<Rightarrow> Inr (s\<lparr>store := (store s)\<lparr>chars := (chars (store s))(p := None)\<rparr>,
                         freed := freed s + 1\<rparr>))"

definition free_jsons :: "addr \<Rightarrow> pool \<Rightarrow> alloc_error + pool" where
  "free_jsons p s =
     (case jsons (store s) p of
        None \<Rightarrow> Inl BadFree
      | Some _ \<Rightarrow> Inr (s\<lparr>store := (store s)\<lparr>jsons := (jsons (store s))(p := None)\<rparr>,
                         freed := freed s + 1\<rparr>))"

definition free_entries :: "addr \<Rightarrow> pool \<Rightarrow> alloc_error + pool" where
  "free_entries p s =
     (case entries (store s) p of
        None \<Rightarrow> Inl BadFree
      | Some _ \<Rightarrow> Inr (s\<lparr>store := (store s)\<lparr>entries := (entries (store s))(p := None)\<rparr>,
                         freed := freed s + 1\<rparr>))"

text \<open>
  Modelled from the spec: the layout that \<^verbatim>\<open>json_deserialize\<close> builds for a parsed document
  (sections 3 and 6). A string is a buffer of its bytes and a terminating NUL, with the
  length beside the pointer; an array is a contiguous run of values; an object is a
  contiguous run of entries, each with its key buffer and a handle to a value allocated on
  its own; an empty array or object owns no allocation and has a null \<open>elems\<close>. Scalars
  own nothing. A node with an unknown discriminant is never produced (section 8, item 2).
\<close>

fun build :: "jtree \<Rightarrow> pool \<Rightarrow> alloc_error + Json \<times> pool"
  and build_elems :: "jtree list \<Rightarrow> pool \<Rightarrow> alloc_error + Json list \<times> pool"
  and build_entries :: "(string \<times> jtree) list \<Rightarrow> pool \<Rightarrow> alloc_error + JsonEntry list \<times> pool"
where
  "build TNull s = Inr (zero_json\<lparr>tag := Null\<rparr>, s)"
| "build TTrue s = Inr (zero_json\<lparr>tag := True_tag\<rparr>, s)"
| "build TFalse s = Inr (zero_json\<lparr>tag := False_tag\<rparr>, s)"
| "build (TNumber x) s = Inr (zero_json\<lparr>tag := Number, number := x\<rparr>, s)"
| "build (TString bs) s =
     (case alloc_chars (bs @ [NUL]) s of
        Inl err \<Rightarrow> Inl err
      | Inr (p, s') \<Rightarrow>
          Inr (zero_json\<lparr>tag := String,
                 string := \<lparr>JsonString.buf = p, JsonString.len = of_nat (length bs)\<rparr>\<rparr>, s'))"
| "build (TArray ts) s =
     (case build_elems ts s of
        Inl err \<Rightarrow> Inl err
      | Inr (es, s') \<Rightarrow>
          if es = [] then Inr (zero_json\<lparr>tag := Array\<rparr>, s')
          else
            (case alloc_jsons es s' of
               Inl err \<Rightarrow> Inl err
             | Inr (p, s'') \<Rightarrow>
                 Inr (zero_json\<lparr>tag := Array,
                        array := \<lparr>JsonArray.elems = p, JsonArray.len = of_nat (length es)\<rparr>\<rparr>, s'')))"
| "build (TObject kvs) s =
     (case build_entries kvs s of
        Inl err \<Rightarrow> Inl err
      | Inr (ens, s') \<Rightarrow>
          if ens = [] then Inr (zero_json\<lparr>tag := Object\<rparr>, s')
          else
            (case alloc_entries ens s' of
               Inl err \<Rightarrow> Inl err
             | Inr (p, s'') \<Rightarrow>
                 Inr (zero_json\<lparr>tag := Object,
                        object := \<lparr>JsonObject.elems = p, JsonObject.len = of_nat (length ens)\<rparr>\<rparr>, s'')))"
| "build (TOther t) s = Inl NotAValue"
| "build_elems [] s = Inr ([], s)"
| "build_elems (t # ts) s =
     (case build t s of
        Inl err \<Rightarrow> Inl err
      | Inr (e, s') \<Rightarrow>
          (case build_elems ts s' of
             Inl err \<Rightarrow> Inl err
           | Inr (es, s'') \<Rightarrow> Inr (e # es, s'')))"
| "build_entries [] s = Inr ([], s)"
| "build_entries (kv # kvs) s =
     (case alloc_chars (fst kv @ [NUL]) s of
        Inl err \<Rightarrow> Inl err
      | Inr (pk, s1) \<Rightarrow>
          (case build (snd kv) s1 of
             Inl err \<Rightarrow> Inl err
           | Inr (v, s2) \<Rightarrow>
               (case alloc_jsons [v] s2 of
                  Inl err \<Rightarrow> Inl err
                | Inr (pv, s3) \<Rightarrow>
                    (case build_entries kvs s3 of
                       Inl err \<Rightarrow> Inl err
                     | Inr (ens, s4) \<Rightarrow>
                         Inr (\<lparr>key = \<lparr>JsonString.buf = pk, JsonString.len = of_nat (length (fst kv))\<rparr>,
                               val = pv\<rparr> # ens, s4)))))"

text \<open>
  Modelled from the spec: \<^verbatim>\<open>json_deserialize\<close> (section 4.2). Which tree a text denotes is
  the parser's business, which the specification leaves outside; it is the parameter
  \<open>parse\<close>, and a text is a valid JSON input when \<open>parse\<close> accepts it. A text that does not
  parse gives the sentinel Null, which owns no memory (sections 4.2 and 7).
\<close>

definition json_deserialize ::
  "(string \<Rightarrow> jtree option) \<Rightarrow> string \<Rightarrow> pool \<Rightarrow> alloc_error + Json \<times> pool" where
  "json_deserialize parse text s =
     (case parse text of
        None \<Rightarrow> Inr (zero_json\<lparr>tag := Null\<rparr>, s)
      | Some t \<Rightarrow> build t s)"

text \<open>
  Modelled from the spec: \<^verbatim>\<open>json_free\<close> (section 4.2 and section 9: "Release walks and
  frees"). It walks the tree from the root value through the memory and releases the
  allocations of every node after those of its descendants: for an array the elements and
  then the run, for an object each key buffer, each value and its handle and then the run
  of entries, for a string the buffer. The walk follows pointers, so it is fuelled like the
  printer.
\<close>

fun json_free :: "nat \<Rightarrow> Json \<Rightarrow> pool \<Rightarrow> alloc_error + pool"
  and free_elems :: "nat \<Rightarrow> Json list \<Rightarrow> pool \<Rightarrow> alloc_error + pool"
  and free_entry_list :: "nat \<Rightarrow> JsonEntry list \<Rightarrow> pool \<Rightarrow> alloc_error + pool"
where
  "json_free 0 json s = Inl NoFuel"
| "json_free (Suc n) json s =
     (if tag json = Array then
        (if JsonArray.len (array json) = 0 then Inr s
         else
           (case jsons (store s) (JsonArray.elems (array json)) of
              None \<Rightarrow> Inl BadRead
            | Some es \<Rightarrow>
                (case free_elems n (take (unat (JsonArray.len (array json))) es) s of
                   Inl err \<Rightarrow> Inl err
                 | Inr s' \<Rightarrow> free_jsons (JsonArray.elems (array json)) s')))
      else if tag json = Object then
        (if JsonObject.len (object json) = 0 then Inr s
         else
           (case entries (store s) (JsonObject.elems (object json)) of
              None \<Rightarrow> Inl BadRead
            | Some ens \<Rightarrow>
                (case free_entry_list n (take (unat (JsonObject.len (object json))) ens) s of
                   Inl err \<Rightarrow> Inl err
                 | Inr s' \<Rightarrow> free_entries (JsonObject.elems (object json)) s')))
      else if tag json = String then free_chars (buf (string json)) s
      else Inr s)"
| "free_elems n [] s = Inr s"
| "free_elems n (e # es) s =
     (case json_free n e s of
        Inl err \<Rightarrow> Inl err
      | Inr s' \<Rightarrow> free_elems n es s')"
| "free_entry_list n [] s = Inr s"
| "free_entry_list n (en # ens) s =
     (case free_chars (buf (key en)) s of
        Inl err \<Rightarrow> Inl err
      | Inr s1 \<Rightarrow>
          (case load_json (store s1) (val en) 0 of
             None \<Rightarrow> Inl BadRead
           | Some v \<Rightarrow>
               (case json_free n v s1 of
                  Inl err \<Rightarrow> Inl err
                | Inr s2 \<Rightarrow>
                    (case free_jsons (val en) s2 of
                       Inl err \<Rightarrow> Inl err
                     | Inr s3 \<Rightarrow> free_entry_list n ens s3))))"

subsection \<open>Frames\<close>

text \<open>
  Modelled from the spec: the invariant of the pool, that no allocation is live at or
  above \<open>next_free\<close>. The empty pool satisfies it and allocation and release keep it.
\<close>

definition pool_ok :: "pool \<Rightarrow> bool" where
  "pool_ok s \<longleftrightarrow>
     (\<forall>x. next_free s \<le> x \<longrightarrow>
        chars (store s) x = None \<and> jsons (store s) x = None \<and> entries (store s) x = None)"

text \<open>
  Notions for the proof that release undoes deserialization: the heap with the addresses
  of \<open>[a, b)\<close> released, two heaps that hold the same at every address of \<open>[a, b)\<close>, the
  pool after \<open>k\<close> releases that cleared \<open>[a, b)\<close>, a pool that a later one extends, and an
  operation that, on every pool holding what \<open>h\<close> holds in \<open>[a, b)\<close>, releases exactly
  \<open>[a, b)\<close> in \<open>k\<close> releases.
\<close>

definition clear :: "addr \<Rightarrow> addr \<Rightarrow> heap \<Rightarrow> heap" where
  "clear a b h =
     \<lparr>chars = (\<lambda>x. if a \<le> x \<and> x < b then None else chars h x),
      jsons = (\<lambda>x. if a \<le> x \<and> x < b then None else jsons h x),
      entries = (\<lambda>x. if a \<le> x \<and> x < b then None else entries h x)\<rparr>"

definition agree :: "addr \<Rightarrow> addr \<Rightarrow> heap \<Rightarrow> heap \<Rightarrow> bool" where
  "agree a b h h' \<longleftrightarrow>
     (\<forall>x. a \<le> x \<and> x < b \<longrightarrow>
        chars h x = chars h' x \<and> jsons h x = jsons h' x \<and> entries h x = entries h' x)"

definition released :: "addr \<Rightarrow> addr \<Rightarrow> nat \<Rightarrow> pool \<Rightarrow> pool" where
  "released a b k s = s\<lparr>store := clear a b (store s), freed := freed s + k\<rparr>"

definition extends :: "pool \<Rightarrow> pool \<Rightarrow> bool" where
  "extends s s' \<longleftrightarrow>
     next_free s \<le> next_free s' \<and> allocated s \<le> allocated s' \<and> freed s' = freed s \<and>
     agree 0 (next_free s) (store s) (store s') \<and> (pool_ok s \<longrightarrow> pool_ok s')"

definition frees :: "(pool \<Rightarrow> alloc_error + pool) \<Rightarrow> heap \<Rightarrow> addr \<Rightarrow> addr \<Rightarrow> nat \<Rightarrow> bool" where
  "frees f h a b k \<longleftrightarrow> (\<forall>s. agree a b h (store s) \<longrightarrow> f s = Inr (released a b k s))"

section \<open>Sample values\<close>

definition empty_heap :: heap where
  "empty_heap = \<lparr>chars = Map.empty, jsons = Map.empty, entries = Map.empty\<rparr>"

definition double_12 :: "64 word" where
  "double_12 = 0x4028000000000000"

text \<open>
  A heap holding the array \<^verbatim>\<open>[null, true]\<close> at \<open>0x1000\<close>, the number 12 at \<open>0x2000\<close>, the
  key \<^verbatim>\<open>k\<close> at \<open>0x100\<close>, the four bytes \<^verbatim>\<open>a NUL b NUL\<close> at \<open>0x200\<close> and, at \<open>0x3000\<close>, the
  entries of an object whose keys are those two buffers.
\<close>

definition sample_heap :: heap where
  "sample_heap =
     \<lparr>chars = [0x100 \<mapsto> [CHR ''k'', NUL], 0x200 \<mapsto> [CHR ''a'', NUL, CHR ''b'', NUL]],
      jsons = [0x1000 \<mapsto> [zero_json\<lparr>tag := Null\<rparr>, zero_json\<lparr>tag := True_tag\<rparr>],
               0x2000 \<mapsto> [zero_json\<lparr>tag := Number, number := double_12\<rparr>]],
      entries = [0x3000 \<mapsto> [\<lparr>key = \<lparr>JsonString.buf = 0x100, JsonString.len = 1\<rparr>, val = 0x2000\<rparr>,
                              \<lparr>key = \<lparr>JsonString.buf = 0x200, JsonString.len = 3\<rparr>, val = 0x1000\<rparr>]]\<rparr>"

definition sample_array :: Json where
  "sample_array = zero_json\<lparr>tag := Array, array := \<lparr>JsonArray.elems = 0x1000, JsonArray.len = 2\<rparr>\<rparr>"

definition sample_object :: Json where
  "sample_object = zero_json\<lparr>tag := Object, object := \<lparr>JsonObject.elems = 0x3000, JsonObject.len = 1\<rparr>\<rparr>"

definition nul_key_object :: Json where
  "nul_key_object = zero_json\<lparr>tag := Object, object := \<lparr>JsonObject.elems = 0x3000, JsonObject.len = 2\<rparr>\<rparr>"

definition sample_string :: Json where
  "sample_string = zero_json\<lparr>tag := String, string := \<lparr>JsonString.buf = 0x100, JsonString.len = 1\<rparr>\<rparr>"

definition nul_string :: Json where
  "nul_string = zero_json\<lparr>tag := String, string := \<lparr>JsonString.buf = 0x200, JsonString.len = 3\<rparr>\<rparr>"

text \<open>
  The object \<^verbatim>\<open>{"k": 12}\<close> a second time: at other addresses, with other data in the inactive
  union members and a byte behind the key's terminator.
\<close>

definition moved_heap :: heap where
  "moved_heap =
     \<lparr>chars = [0x700 \<mapsto> [CHR ''k'', NUL, CHR ''x'']],
      jsons = [0x800 \<mapsto> [zero_json\<lparr>tag := Number, number := double_12,
                                     array := \<lparr>JsonArray.elems = 0x900, JsonArray.len = 7\<rparr>\<rparr>]],
      entries = [0x900 \<mapsto> [\<lparr>key = \<lparr>JsonString.buf = 0x700, JsonString.len = 1\<rparr>, val = 0x800\<rparr>]]\<rparr>"

definition moved_object :: Json where
  "moved_object =
     zero_json\<lparr>tag := Object, number := 99,
       object := \<lparr>JsonObject.elems = 0x900, JsonObject.len = 1\<rparr>\<rparr>"

text \<open>
  The empty pool, and a parser for one document, \<^verbatim>\<open>{"k": [12, null]}\<close>.
\<close>

definition empty_pool :: pool where
  "empty_pool = \<lparr>store = empty_heap, next_free = 1, allocated = 0, freed = 0\<rparr>"

definition sample_text :: string where
  "sample_text = ''{'' @ [dquote] @ ''k'' @ [dquote] @ '': [12, null]}''"

definition sample_parse :: "string \<Rightarrow> jtree option" where
  "sample_parse text =
     (if text = sample_text then Some (TObject [(''k'', TArray [TNumber double_12, TNull])])
      else None)"

section \<open>Properties of the printer\<close>

lemmas Tag_defs = Null_def True_tag_def False_tag_def Number_def String_def Array_def Object_def

subsection \<open>Scalars\<close>

text \<open>
  C4: a value tagged Null is printed as exactly the four characters \<open>null\<close>, one tagged True as
  exactly \<open>true\<close>, one tagged False as exactly \<open>false\<close>; nothing else is written.
\<close>

theorem json_print_literals:
  "(tag json = Null \<longrightarrow> json_print (Suc n) h json out = Inr (out @ ''null'')) \<and>
   (tag json = True_tag \<longrightarrow> json_print (Suc n) h json out = Inr (out @ ''true'')) \<and>
   (tag json = False_tag \<longrightarrow> json_print (Suc n) h json out = Inr (out @ ''false''))"
  by (simp add: json_print.simps Tag_defs)

theorem json_print_literals_witness:
  "json_print (Suc 0) empty_heap (zero_json\<lparr>tag := Null\<rparr>) [] = Inr ''null'' \<and>
   json_print (Suc 0) empty_heap (zero_json\<lparr>tag := True_tag\<rparr>) [] = Inr ''true'' \<and>
   json_print (Suc 0) empty_heap (zero_json\<lparr>tag := False_tag\<rparr>) [] = Inr ''false''"
  using json_print_literals [of "zero_json\<lparr>tag := Null\<rparr>" 0 empty_heap "[]"]
    json_print_literals [of "zero_json\<lparr>tag := True_tag\<rparr>" 0 empty_heap "[]"]
    json_print_literals [of "zero_json\<lparr>tag := False_tag\<rparr>" 0 empty_heap "[]"]
  by simp

text \<open>
  C6: a value whose tag is none of the seven enumerators falls to the \<^verbatim>\<open>default\<close> label:
  the call returns without an error and standard output is unchanged.
\<close>

theorem json_print_unknown_tag:
  assumes "tag json \<notin> {Null, True_tag, False_tag, Number, String, Array, Object}"
  shows "json_print (Suc n) h json out = Inr out"
  using assms by (simp add: json_print.simps)

theorem json_print_unknown_tag_witness:
  "tag (zero_json\<lparr>tag := 7\<rparr>) \<notin> {Null, True_tag, False_tag, Number, String, Array, Object} \<and>
   json_print (Suc 0) empty_heap (zero_json\<lparr>tag := 7\<rparr>) ''x'' = Inr ''x''"
proof -
  have t: "tag (zero_json\<lparr>tag := 7\<rparr>) \<notin> {Null, True_tag, False_tag, Number, String, Array, Object}"
    by (simp add: Tag_defs)
  from json_print_unknown_tag [OF t] t show ?thesis
    by simp
qed

subsection \<open>Evaluation of the sample values\<close>

lemma sample_chars:
  "chars sample_heap 0x100 = Some [CHR ''k'', NUL]"
  "chars sample_heap 0x200 = Some [CHR ''a'', NUL, CHR ''b'', NUL]"
  by (simp_all add: sample_heap_def)

lemma sample_jsons:
  "jsons sample_heap 0x1000 = Some [zero_json\<lparr>tag := Null\<rparr>, zero_json\<lparr>tag := True_tag\<rparr>]"
  "jsons sample_heap 0x2000 = Some [zero_json\<lparr>tag := Number, number := double_12\<rparr>]"
  by (simp_all add: sample_heap_def)

lemma sample_entries:
  "entries sample_heap 0x3000 =
     Some [\<lparr>key = \<lparr>JsonString.buf = 0x100, JsonString.len = 1\<rparr>, val = 0x2000\<rparr>,
           \<lparr>key = \<lparr>JsonString.buf = 0x200, JsonString.len = 3\<rparr>, val = 0x1000\<rparr>]"
  by (simp add: sample_heap_def)

lemma digits_12: "digits 12 = ''12''"
  by (simp add: digits.simps [of 12] digits.simps [of "Suc 0"])

lemma pad6_0: "pad6 0 = ''000000''"
  by (simp add: pad6_def digits.simps [of 0] numeral_eq_Suc)

lemma double_12_fields:
  "\<not> bit double_12 63" "exponent_field double_12 = 1026" "fraction_field double_12 = 2 ^ 51"
  by (simp_all add: double_12_def exponent_field_def fraction_field_def)

lemma fixed6_12: "fixed6 (2 ^ 52 + 2 ^ 51) (- 49) = ''12.000000''"
proof -
  have "round_div ((2 ^ 52 + 2 ^ 51) * 10 ^ 6) (2 ^ 49) = 12000000"
    by (simp add: round_div_def)
  then show ?thesis
    by (simp add: fixed6_def digits_12 pad6_0)
qed

lemma printf_f_12: "printf_f double_12 = ''12.000000''"
  using fixed6_12 by (simp add: printf_f_def double_12_fields sign_text_def)

subsection \<open>Numbers\<close>

text \<open>
  C5: a value tagged Number whose payload is the double 12.0 is printed as exactly
  \<open>12.000000\<close>. The double 12.0 is the bit pattern \<open>0x4028000000000000\<close>: sign 0, exponent
  field 1026, fraction \<open>2^51\<close>, that is \<open>(2^52 + 2^51) * 2^(1026 - 1075) = 12\<close>.
\<close>

theorem json_print_number_12:
  assumes "tag json = Number" and "number json = double_12"
  shows "json_print (Suc n) h json out = Inr (out @ ''12.000000'') \<and>
         \<not> bit double_12 63 \<and> exponent_field double_12 = 1026 \<and> fraction_field double_12 = 2 ^ 51"
  using assms by (simp add: json_print.simps Tag_defs printf_f_12 double_12_fields)

theorem json_print_number_12_witness:
  "json_print (Suc 0) empty_heap (zero_json\<lparr>tag := Number, number := double_12\<rparr>) [] = Inr ''12.000000''"
proof -
  have t: "tag (zero_json\<lparr>tag := Number, number := double_12\<rparr>) = Number"
    and v: "number (zero_json\<lparr>tag := Number, number := double_12\<rparr>) = double_12"
    by simp_all
  from json_print_number_12 [OF t v, of 0 empty_heap "[]"] show ?thesis
    by simp
qed

subsection \<open>Strings\<close>

lemma takeWhile_before_stop:
  assumes "n < length cs" and "\<not> P (cs ! n)"
  shows "takeWhile P cs = takeWhile P (take n cs)"
proof -
  have "cs = take n cs @ cs ! n # drop (Suc n) cs"
    using assms(1) by (simp add: id_take_nth_drop)
  then have "takeWhile P cs = takeWhile P (take n cs @ cs ! n # drop (Suc n) cs)"
    by simp
  also have "\<dots> = takeWhile P (take n cs)"
  proof (cases "\<forall>x\<in>set (take n cs). P x")
    case True
    then have tw: "takeWhile P (take n cs) = take n cs"
      by (simp add: takeWhile_eq_all_conv)
    show ?thesis
      unfolding tw using True assms(2) by (simp add: takeWhile_append)
  next
    case False
    then obtain x where "x \<in> set (take n cs)" and "\<not> P x"
      by blast
    then show ?thesis
      by (rule takeWhile_append1)
  qed
  finally show ?thesis .
qed

lemma c_string_bytes:
  assumes "string_bytes h s = Some bs"
  shows "c_string h (buf s) = Some (takeWhile (\<lambda>c. c \<noteq> NUL) bs)"
proof -
  from assms obtain cs where cs: "chars h (buf s) = Some cs"
    and n: "unat (JsonString.len s) < length cs"
    and z: "cs ! unat (JsonString.len s) = NUL"
    and bs: "bs = take (unat (JsonString.len s)) cs"
    by (auto simp add: string_bytes_def split: option.splits if_splits)
  have "NUL \<in> set cs"
    using n z by (metis nth_mem)
  moreover have "takeWhile (\<lambda>c. c \<noteq> NUL) cs = takeWhile (\<lambda>c. c \<noteq> NUL) bs"
    unfolding bs using n z by (intro takeWhile_before_stop) simp_all
  ultimately show ?thesis
    using cs by (simp add: c_string_def)
qed

text \<open>
  C3, as amended: a value tagged String is printed as one double quote, the decoded bytes of
  the buffer that precede the first NUL among them, unchanged (nothing is escaped again),
  and one closing double quote. When none of the \<open>len\<close> bytes is NUL these are all \<open>len\<close>
  bytes. The printer passes the buffer to \<^verbatim>\<open>%s\<close> and never reads \<open>len\<close>.
\<close>

theorem json_print_string:
  assumes "tag json = String" and "string_bytes h (string json) = Some bs"
  shows "json_print (Suc n) h json out =
           Inr (out @ [dquote] @ takeWhile (\<lambda>c. c \<noteq> NUL) bs @ [dquote]) \<and>
         (NUL \<notin> set bs \<longrightarrow> json_print (Suc n) h json out = Inr (out @ [dquote] @ bs @ [dquote]))"
proof -
  have "json_print (Suc n) h json out =
      Inr (out @ [dquote] @ takeWhile (\<lambda>c. c \<noteq> NUL) bs @ [dquote])"
    using assms(1) c_string_bytes [OF assms(2)] by (simp add: json_print.simps Tag_defs)
  moreover have "takeWhile (\<lambda>c. c \<noteq> NUL) bs = bs" if "NUL \<notin> set bs"
    using that by (auto simp add: takeWhile_eq_all_conv)
  ultimately show ?thesis
    by simp
qed

theorem json_print_string_witness:
  "string_bytes sample_heap (string sample_string) = Some ''k'' \<and>
   json_print (Suc 0) sample_heap sample_string [] = Inr [dquote, CHR ''k'', dquote]"
proof -
  have t: "tag sample_string = String"
    by (simp add: sample_string_def)
  have b: "string_bytes sample_heap (string sample_string) = Some ''k''"
    by (simp add: string_bytes_def sample_string_def sample_chars)
  from json_print_string [OF t b, of 0 "[]"] b show ?thesis
    by (simp add: NUL_def)
qed

text \<open>
  Read as "all \<open>len\<close> bytes", the statement fails on a string with an embedded NUL: for
  the three bytes \<^verbatim>\<open>a NUL b\<close> the printer writes \<^verbatim>\<open>"a"\<close>, not the quote, the three bytes
  and the quote.
\<close>

theorem json_print_string_counterexample:
  "tag nul_string = String \<and>
   string_bytes sample_heap (string nul_string) = Some [CHR ''a'', NUL, CHR ''b''] \<and>
   json_print (Suc 0) sample_heap nul_string [] = Inr [dquote, CHR ''a'', dquote] \<and>
   json_print (Suc 0) sample_heap nul_string [] \<noteq> Inr ([dquote] @ [CHR ''a'', NUL, CHR ''b''] @ [dquote])"
  by (simp add: nul_string_def string_bytes_def c_string_def sample_chars json_print.simps Tag_defs NUL_def dquote_def)

subsection \<open>Arrays and objects\<close>

lemma sep_join_Cons: "sep_join (r # rs) = r @ (if rs = [] then [] else '', '' @ sep_join rs)"
  by (cases rs) simp_all

lemma word_succ_unat: "(i :: 64 word) < m \<Longrightarrow> unat (i + 1) = Suc (unat i)"
  by unat_arith

lemma word_last_test: "(i :: 64 word) < m \<Longrightarrow> (i < m - 1) = (Suc (unat i) < unat m)"
  by unat_arith

lemma array_loop_run:
  assumes len: "length rs = unat (JsonArray.len a)"
    and elems: "\<forall>k<length rs. \<exists>e. load_json h (JsonArray.elems a) (of_nat k) = Some e \<and>
                  (\<forall>out'. json_print n h e out' = Inr (out' @ rs ! k))"
    and i: "unat i \<le> length rs"
  shows "array_loop n h a i out = Inr (out @ sep_join (drop (unat i) rs))"
  using i
proof (induction "length rs - unat i" arbitrary: i out)
  case 0
  then have "\<not> i < JsonArray.len a"
    using len by (simp add: word_less_nat_alt)
  with 0 show ?case
    by (simp add: array_loop.simps)
next
  case (Suc d)
  then have k: "unat i < length rs"
    by simp
  then have lt: "i < JsonArray.len a"
    using len by (simp add: word_less_nat_alt)
  from elems k obtain e where e: "load_json h (JsonArray.elems a) (of_nat (unat i)) = Some e"
    and pr: "\<And>out'. json_print n h e out' = Inr (out' @ rs ! unat i)"
    by blast
  have next_i: "unat (i + 1) = Suc (unat i)"
    using lt by (rule word_succ_unat)
  have IH: "array_loop n h a (i + 1) out' = Inr (out' @ sep_join (drop (Suc (unat i)) rs))" for out'
    using Suc.hyps(1) [of "i + 1" out'] Suc.hyps(2) k next_i by simp
  have sep: "(i < JsonArray.len a - 1) = (drop (Suc (unat i)) rs \<noteq> [])"
    using lt len by (auto simp add: word_last_test)
  have split: "drop (unat i) rs = rs ! unat i # drop (Suc (unat i)) rs"
    using k by (simp add: Cons_nth_drop_Suc)
  show ?case
    using lt e pr IH sep
    by (simp add: array_loop.simps [of n h a i] split sep_join_Cons)
qed



lemma object_loop_run:
  assumes len: "length kvs = unat (JsonObject.len ob)"
    and elems: "\<forall>k<length kvs. \<exists>en v.
                  load_entry h (JsonObject.elems ob) (of_nat k) = Some en \<and>
                  c_string h (buf (key en)) = Some (fst (kvs ! k)) \<and>
                  load_json h (val en) 0 = Some v \<and>
                  (\<forall>out'. json_print n h v out' = Inr (out' @ snd (kvs ! k)))"
    and i: "unat i \<le> length kvs"
  shows "object_loop n h ob i out = Inr (out @ sep_join (map entry_text (drop (unat i) kvs)))"
  using i
proof (induction "length kvs - unat i" arbitrary: i out)
  case 0
  then have "\<not> i < JsonObject.len ob"
    using len by (simp add: word_less_nat_alt)
  with 0 show ?case
    by (simp add: object_loop.simps)
next
  case (Suc d)
  then have k: "unat i < length kvs"
    by simp
  then have lt: "i < JsonObject.len ob"
    using len by (simp add: word_less_nat_alt)
  from elems k obtain en v
    where en: "load_entry h (JsonObject.elems ob) (of_nat (unat i)) = Some en"
      and ks: "c_string h (buf (key en)) = Some (fst (kvs ! unat i))"
      and v: "load_json h (val en) 0 = Some v"
      and pr: "\<And>out'. json_print n h v out' = Inr (out' @ snd (kvs ! unat i))"
    by blast
  have next_i: "unat (i + 1) = Suc (unat i)"
    using lt by (rule word_succ_unat)
  have IH: "object_loop n h ob (i + 1) out' =
      Inr (out' @ sep_join (map entry_text (drop (Suc (unat i)) kvs)))" for out'
    using Suc.hyps(1) [of "i + 1" out'] Suc.hyps(2) k next_i by simp
  have sep: "(i < JsonObject.len ob - 1) = (drop (Suc (unat i)) kvs \<noteq> [])"
    using lt len by (auto simp add: word_last_test)
  have split: "drop (unat i) kvs = kvs ! unat i # drop (Suc (unat i)) kvs"
    using k by (simp add: Cons_nth_drop_Suc)
  show ?case
    using lt en ks v pr IH sep
    by (simp add: object_loop.simps [of n h ob i] split sep_join_Cons entry_text_def)
qed

text \<open>
  C1: a value tagged Array is printed as \<open>[\<close>, the renderings of \<open>elems[0]\<close>, ...,
  \<open>elems[len - 1]\<close> in index order with \<open>, \<close> between consecutive ones and nothing after
  the last, and \<open>]\<close>. Here \<open>rs ! k\<close> is what the nested call writes for element \<open>k\<close>. An
  array of length 0 is printed as exactly \<open>[]\<close>.
\<close>

theorem json_print_array:
  assumes "tag json = Array"
    and "length rs = unat (JsonArray.len (array json))"
    and "\<forall>k<length rs. \<exists>e.
           load_json h (JsonArray.elems (array json)) (of_nat k) = Some e \<and>
           (\<forall>out'. json_print n h e out' = Inr (out' @ rs ! k))"
  shows "json_print (Suc n) h json out = Inr (out @ ''['' @ sep_join rs @ '']'') \<and>
         (JsonArray.len (array json) = 0 \<longrightarrow> json_print (Suc n) h json out = Inr (out @ ''[]''))"
proof -
  have "array_loop n h (array json) 0 (out @ ''['') = Inr ((out @ ''['') @ sep_join (drop (unat (0 :: 64 word)) rs))"
    using assms(2,3) by (intro array_loop_run) simp_all
  then have run: "json_print (Suc n) h json out = Inr (out @ ''['' @ sep_join rs @ '']'')"
    using assms(1) by (simp add: json_print.simps)
  moreover have "rs = []" if "JsonArray.len (array json) = 0"
    using that assms(2) by simp
  ultimately show ?thesis
    by auto
qed

theorem json_print_array_witness:
  "tag sample_array = Array \<and>
   json_print (Suc (Suc 0)) sample_heap sample_array [] = Inr ''[null, true]''"
proof -
  have t: "tag sample_array = Array"
    by (simp add: sample_array_def)
  have l: "length [''null'', ''true''] = unat (JsonArray.len (array sample_array))"
    by (simp add: sample_array_def)
  have e: "\<forall>k<length [''null'', ''true'']. \<exists>e.
      load_json sample_heap (JsonArray.elems (array sample_array)) (of_nat k) = Some e \<and>
      (\<forall>out'. json_print (Suc 0) sample_heap e out' = Inr (out' @ [''null'', ''true''] ! k))"
    by (simp add: less_Suc_eq sample_array_def load_json_def sample_jsons json_print.simps Tag_defs)
  from json_print_array [OF t l e, of "[]"] t show ?thesis
    by simp
qed

text \<open>
  C2, as amended: a value tagged Object is printed as \<open>{\<close>, then for each entry in stored
  order the bytes of its key buffer that precede the first NUL, without quotes, the three
  characters \<open> : \<close> and the rendering of the value its \<open>val\<close> pointer refers to, with
  \<open>, \<close> between consecutive entries and nothing after the last, and \<open>}\<close>. An object of
  length 0 is printed as exactly \<open>{}\<close>. The key text is all of the key's bytes when none
  of them is NUL (lemma \<open>c_string_bytes\<close>).
\<close>

theorem json_print_object:
  assumes "tag json = Object"
    and "length kvs = unat (JsonObject.len (object json))"
    and "\<forall>k<length kvs. \<exists>en v.
           load_entry h (JsonObject.elems (object json)) (of_nat k) = Some en \<and>
           c_string h (buf (key en)) = Some (fst (kvs ! k)) \<and>
           load_json h (val en) 0 = Some v \<and>
           (\<forall>out'. json_print n h v out' = Inr (out' @ snd (kvs ! k)))"
  shows "json_print (Suc n) h json out = Inr (out @ ''{'' @ sep_join (map entry_text kvs) @ ''}'') \<and>
         (JsonObject.len (object json) = 0 \<longrightarrow> json_print (Suc n) h json out = Inr (out @ ''{}''))"
proof -
  have "object_loop n h (object json) 0 (out @ ''{'') =
      Inr ((out @ ''{'') @ sep_join (map entry_text (drop (unat (0 :: 64 word)) kvs)))"
    using assms(2,3) by (intro object_loop_run) simp_all
  then have run: "json_print (Suc n) h json out = Inr (out @ ''{'' @ sep_join (map entry_text kvs) @ ''}'')"
    using assms(1) by (simp add: json_print.simps Tag_defs)
  moreover have "kvs = []" if "JsonObject.len (object json) = 0"
    using that assms(2) by simp
  ultimately show ?thesis
    by auto
qed

theorem json_print_object_witness:
  "tag sample_object = Object \<and>
   json_print (Suc (Suc 0)) sample_heap sample_object [] = Inr ''{k : 12.000000}''"
proof -
  have t: "tag sample_object = Object"
    by (simp add: sample_object_def)
  have l: "length [(''k'', ''12.000000'')] = unat (JsonObject.len (object sample_object))"
    by (simp add: sample_object_def)
  have e: "\<forall>k<length [(''k'', ''12.000000'')]. \<exists>en v.
      load_entry sample_heap (JsonObject.elems (object sample_object)) (of_nat k) = Some en \<and>
      c_string sample_heap (buf (key en)) = Some (fst ([(''k'', ''12.000000'')] ! k)) \<and>
      load_json sample_heap (val en) 0 = Some v \<and>
      (\<forall>out'. json_print (Suc 0) sample_heap v out' = Inr (out' @ snd ([(''k'', ''12.000000'')] ! k)))"
    by (simp add: sample_object_def load_entry_def load_json_def c_string_def sample_entries
        sample_jsons sample_chars json_print.simps Tag_defs printf_f_12 NUL_def)
  from json_print_object [OF t l e, of "[]"] t show ?thesis
    by (simp add: entry_text_def)
qed

text \<open>
  Read as "all the bytes of the key", the statement fails on a key with an embedded NUL:
  the second key of the sample object has the three bytes \<^verbatim>\<open>a NUL b\<close>, and the printer
  writes \<^verbatim>\<open>a\<close> for it.
\<close>

theorem json_print_object_counterexample:
  "tag nul_key_object = Object \<and>
   load_entry sample_heap (JsonObject.elems (object nul_key_object)) 1 =
     Some \<lparr>key = \<lparr>JsonString.buf = 0x200, JsonString.len = 3\<rparr>, val = 0x1000\<rparr> \<and>
   string_bytes sample_heap \<lparr>JsonString.buf = 0x200, JsonString.len = 3\<rparr> = Some [CHR ''a'', NUL, CHR ''b''] \<and>
   json_print (Suc (Suc 0)) sample_heap nul_key_object [] = Inr ''{k : 12.000000, a : null}'' \<and>
   json_print (Suc (Suc 0)) sample_heap nul_key_object [] \<noteq>
     Inr (''{'' @ sep_join [entry_text (''k'', ''12.000000''), entry_text ([CHR ''a'', NUL, CHR ''b''], ''null'')] @ ''}'')"
  by (simp add: nul_key_object_def string_bytes_def load_entry_def load_json_def c_string_def
      sample_entries sample_jsons sample_chars json_print.simps object_loop.simps
      Tag_defs printf_f_12 NUL_def entry_text_def)

text \<open>
  C7: for an Array or an Object of length 0 the loop body is never entered, so \<open>elems\<close> is
  never read: whatever the heap, and so also when \<open>elems\<close> is null or dangling and any read
  through it would fault, the call returns and writes \<open>[]\<close> or \<open>{}\<close>. The expression
  \<open>len - 1\<close> of the separator test wraps to \<open>2^64 - 1\<close> there, and is never evaluated.
\<close>

theorem json_print_empty_no_read:
  "(tag json = Array \<and> JsonArray.len (array json) = 0 \<longrightarrow>
      (\<forall>h. json_print (Suc n) h json out = Inr (out @ ''[]'')) \<and>
      JsonArray.len (array json) - 1 = 0xFFFFFFFFFFFFFFFF) \<and>
   (tag json = Object \<and> JsonObject.len (object json) = 0 \<longrightarrow>
      (\<forall>h. json_print (Suc n) h json out = Inr (out @ ''{}'')) \<and>
      JsonObject.len (object json) - 1 = 0xFFFFFFFFFFFFFFFF)"
  by (simp add: json_print.simps array_loop.simps object_loop.simps Tag_defs)

theorem json_print_empty_no_read_witness:
  "jsons empty_heap 0 = None \<and> entries empty_heap 0 = None \<and>
   json_print (Suc 0) empty_heap (zero_json\<lparr>tag := Array\<rparr>) [] = Inr ''[]'' \<and>
   json_print (Suc 0) empty_heap (zero_json\<lparr>tag := Object\<rparr>) [] = Inr ''{}''"
  using json_print_empty_no_read [of "zero_json\<lparr>tag := Array\<rparr>" 0 "[]"]
    json_print_empty_no_read [of "zero_json\<lparr>tag := Object\<rparr>" 0 "[]"]
  by (simp add: zero_json_def empty_heap_def Tag_defs)

subsection \<open>Whole trees\<close>

lemma max_list_ge: "x \<in> set xs \<Longrightarrow> x \<le> max_list xs"
  by (induction xs) auto

lemma json_print_render:
  "repr h j t \<Longrightarrow> depth t < m \<Longrightarrow> json_print m h j out = Inr (out @ render t)"
proof (induction t arbitrary: j m out)
  case TNull
  then show ?case by (cases m) (simp_all add: json_print.simps Tag_defs)
next
  case TTrue
  then show ?case by (cases m) (simp_all add: json_print.simps Tag_defs)
next
  case TFalse
  then show ?case by (cases m) (simp_all add: json_print.simps Tag_defs)
next
  case (TNumber x)
  then show ?case by (cases m) (simp_all add: json_print.simps Tag_defs)
next
  case (TString s)
  then show ?case
    by (cases m) (simp_all add: json_print.simps Tag_defs c_string_bytes)
next
  case (TArray ts)
  from TArray.prems(2) obtain n where m: "m = Suc n"
    by (cases m) simp_all
  have tag: "tag j = Array" and len: "length (map render ts) = unat (JsonArray.len (array j))"
    using TArray.prems(1) by simp_all
  have elems: "\<forall>k<length (map render ts). \<exists>e.
      load_json h (JsonArray.elems (array j)) (of_nat k) = Some e \<and>
      (\<forall>out'. json_print n h e out' = Inr (out' @ map render ts ! k))"
  proof (intro allI impI)
    fix k assume k: "k < length (map render ts)"
    then have mem: "ts ! k \<in> set ts"
      by simp
    from TArray.prems(1) k obtain e
      where e: "load_json h (JsonArray.elems (array j)) (of_nat k) = Some e"
        and r: "repr h e (ts ! k)"
      by (auto split: option.splits)
    have "depth (ts ! k) \<le> max_list (map depth ts)"
      using mem by (intro max_list_ge) simp
    then have "depth (ts ! k) < n"
      using TArray.prems(2) m by simp
    then have "json_print n h e out' = Inr (out' @ render (ts ! k))" for out'
      using TArray.IH [OF mem r] by simp
    with e k show "\<exists>e. load_json h (JsonArray.elems (array j)) (of_nat k) = Some e \<and>
      (\<forall>out'. json_print n h e out' = Inr (out' @ map render ts ! k))"
      by simp
  qed
  have "array_loop n h (array j) 0 (out @ ''['') =
      Inr ((out @ ''['') @ sep_join (drop (unat (0 :: 64 word)) (map render ts)))"
    using len elems by (intro array_loop_run) simp_all
  then show ?case
    using tag m by (simp add: json_print.simps)
next
  case (TObject kvs)
  let ?kvs = "map (\<lambda>kv. (takeWhile (\<lambda>c. c \<noteq> NUL) (fst kv), render (snd kv))) kvs"
  from TObject.prems(2) obtain n where m: "m = Suc n"
    by (cases m) simp_all
  have tag: "tag j = Object" and len: "length ?kvs = unat (JsonObject.len (object j))"
    using TObject.prems(1) by simp_all
  have elems: "\<forall>k<length ?kvs. \<exists>en v.
      load_entry h (JsonObject.elems (object j)) (of_nat k) = Some en \<and>
      c_string h (buf (key en)) = Some (fst (?kvs ! k)) \<and>
      load_json h (val en) 0 = Some v \<and>
      (\<forall>out'. json_print n h v out' = Inr (out' @ snd (?kvs ! k)))"
  proof (intro allI impI)
    fix k assume k: "k < length ?kvs"
    then have mem: "kvs ! k \<in> set kvs"
      by simp
    from TObject.prems(1) k
    have "case load_entry h (JsonObject.elems (object j)) (of_nat k) of
            None \<Rightarrow> False
          | Some en \<Rightarrow>
              string_bytes h (key en) = Some (fst (kvs ! k)) \<and>
              (case load_json h (val en) 0 of
                 None \<Rightarrow> False
               | Some v \<Rightarrow> repr h v (snd (kvs ! k)))"
      by simp
    then obtain en v
      where en: "load_entry h (JsonObject.elems (object j)) (of_nat k) = Some en"
        and ks: "string_bytes h (key en) = Some (fst (kvs ! k))"
        and v: "load_json h (val en) 0 = Some v"
        and r: "repr h v (snd (kvs ! k))"
      by (cases "load_entry h (JsonObject.elems (object j)) (of_nat k)")
        (auto split: option.splits)
    have "depth (snd (kvs ! k)) \<le> max_list (map (\<lambda>kv. depth (snd kv)) kvs)"
      using mem by (intro max_list_ge) simp
    then have "depth (snd (kvs ! k)) < n"
      using TObject.prems(2) m by simp
    moreover have "snd (kvs ! k) \<in> Basic_BNFs.snds (kvs ! k)"
      by (cases "kvs ! k") simp
    ultimately have "json_print n h v out' = Inr (out' @ render (snd (kvs ! k)))" for out'
      using TObject.IH [OF mem _ r] by simp
    with en v k c_string_bytes [OF ks]
    show "\<exists>en v.
      load_entry h (JsonObject.elems (object j)) (of_nat k) = Some en \<and>
      c_string h (buf (key en)) = Some (fst (?kvs ! k)) \<and>
      load_json h (val en) 0 = Some v \<and>
      (\<forall>out'. json_print n h v out' = Inr (out' @ snd (?kvs ! k)))"
      by simp
  qed
  have "object_loop n h (object j) 0 (out @ ''{'') =
      Inr ((out @ ''{'') @ sep_join (map entry_text (drop (unat (0 :: 64 word)) ?kvs)))"
    using len elems by (intro object_loop_run) simp_all
  then show ?case
    using tag m by (simp add: json_print.simps Tag_defs comp_def)
next
  case (TOther t)
  then show ?case by (cases m) (simp_all add: json_print.simps)
qed

lemma repr_sample_array: "repr sample_heap sample_array (TArray [TNull, TTrue])"
  by (simp add: less_Suc_eq sample_array_def load_json_def sample_jsons)

lemma repr_sample_object: "repr sample_heap sample_object (TObject [(''k'', TNumber double_12)])"
  by (simp add: sample_object_def load_entry_def load_json_def string_bytes_def
      sample_entries sample_jsons sample_chars)

lemma repr_moved_object: "repr moved_heap moved_object (TObject [(''k'', TNumber double_12)])"
  by (simp add: moved_object_def moved_heap_def load_entry_def load_json_def string_bytes_def)

text \<open>
  C9: \<^verbatim>\<open>json_print\<close> terminates on every finite tree in memory: when the value is the root of
  a tree \<open>t\<close>, every call with more fuel than the depth of \<open>t\<close> returns, without a fault,
  having appended some text to the output.
\<close>

theorem json_print_terminates:
  assumes "repr h j t"
  shows "\<forall>m>depth t. \<exists>s. json_print m h j out = Inr (out @ s)"
  using json_print_render [OF assms] by blast

theorem json_print_terminates_witness:
  "repr sample_heap sample_array (TArray [TNull, TTrue]) \<and>
   depth (TArray [TNull, TTrue]) = 1 \<and>
   (\<exists>s. json_print 2 sample_heap sample_array [] = Inr s)"
proof -
  have "Suc (Suc 0) > depth (TArray [TNull, TTrue])"
    by simp
  with json_print_terminates [OF repr_sample_array, of "[]"]
  have "\<exists>s. json_print (Suc (Suc 0)) sample_heap sample_array [] = Inr ([] @ s)"
    by blast
  then show ?thesis
    using repr_sample_array by (simp add: numeral_2_eq_2)
qed

text \<open>
  C10: the output depends on nothing but the tree. Two calls on values that stand for the
  same tree, in any two heaps, at any addresses and with any sufficient fuel, return the
  same result, and that result is the output so far followed by some text.
\<close>

theorem json_print_deterministic:
  assumes "repr h1 j1 t" and "repr h2 j2 t" and "depth t < m1" and "depth t < m2"
  shows "json_print m1 h1 j1 out = json_print m2 h2 j2 out \<and>
         (\<exists>s. json_print m1 h1 j1 out = Inr (out @ s))"
  using json_print_render [OF assms(1,3)] json_print_render [OF assms(2,4)] by simp

theorem json_print_deterministic_witness:
  "repr sample_heap sample_object (TObject [(''k'', TNumber double_12)]) \<and>
   repr moved_heap moved_object (TObject [(''k'', TNumber double_12)]) \<and>
   sample_object \<noteq> moved_object \<and>
   json_print 2 sample_heap sample_object [] = json_print 3 moved_heap moved_object []"
proof -
  have d2: "depth (TObject [(''k'', TNumber double_12)]) < 2"
    and d3: "depth (TObject [(''k'', TNumber double_12)]) < 3"
    by simp_all
  have "sample_object \<noteq> moved_object"
    by (simp add: sample_object_def moved_object_def zero_json_def)
  with json_print_deterministic [OF repr_sample_object repr_moved_object d2 d3, of "[]"]
    repr_sample_object repr_moved_object
  show ?thesis
    by simp
qed

section \<open>Release after deserialization\<close>

subsection \<open>Allocation extends the pool\<close>

lemma word_succ_less: "(p :: 64 word) \<noteq> - 1 \<Longrightarrow> p < p + 1"
  using inc_less_eq_self_iff_eq [of p] by (simp add: not_le)

lemma word_succ_unat_max: "(p :: 64 word) \<noteq> - 1 \<Longrightarrow> unat (p + 1) = Suc (unat p)"
proof -
  assume "p \<noteq> - 1"
  then have "p < p + 1"
    by (rule word_succ_less)
  moreover have "\<And>k m :: 64 word. k < m \<Longrightarrow> unat (k + 1) = Suc (unat k)"
    by unat_arith
  ultimately show ?thesis
    by blast
qed

lemma word_succ_range: "(p :: 64 word) \<noteq> - 1 \<Longrightarrow> (p \<le> x \<and> x < p + 1) = (x = p)"
  by (auto simp add: word_le_nat_alt word_less_nat_alt word_succ_unat_max word_unat_eq_iff)

lemma word_succ_le: "(p :: 64 word) \<noteq> - 1 \<Longrightarrow> p \<le> p + 1"
  by (simp add: word_le_nat_alt word_succ_unat_max)

lemma word_succ_above: "(p :: 64 word) \<noteq> - 1 \<Longrightarrow> p + 1 \<le> x \<Longrightarrow> p < x"
  by (simp add: word_le_nat_alt word_less_nat_alt word_succ_unat_max)

lemma extends_refl: "extends s s"
  by (simp add: extends_def agree_def)

lemma extends_trans: "extends s s' \<Longrightarrow> extends s' s'' \<Longrightarrow> extends s s''"
  unfolding extends_def agree_def
  by (metis (no_types, lifting) order_trans order_less_le_trans)

lemma alloc_chars_extends: "alloc_chars bs s = Inr (p, s') \<Longrightarrow> extends s s'"
  by (auto simp add: alloc_chars_def extends_def agree_def pool_ok_def word_succ_le
      dest: word_succ_above split: if_splits)

lemma alloc_jsons_extends: "alloc_jsons es s = Inr (p, s') \<Longrightarrow> extends s s'"
  by (auto simp add: alloc_jsons_def extends_def agree_def pool_ok_def word_succ_le
      dest: word_succ_above split: if_splits)

lemma alloc_entries_extends: "alloc_entries es s = Inr (p, s') \<Longrightarrow> extends s s'"
  by (auto simp add: alloc_entries_def extends_def agree_def pool_ok_def word_succ_le
      dest: word_succ_above split: if_splits)

lemma build_extends:
  "build t s = Inr (j, s1) \<Longrightarrow> extends s s1"
  "build_elems ts s = Inr (es, s1) \<Longrightarrow> extends s s1"
  "build_entries kvs s = Inr (ens, s1) \<Longrightarrow> extends s s1"
proof (induction t s and ts s and kvs s arbitrary: j s1 and es s1 and ens s1
    rule: build_build_elems_build_entries.induct)
  case (5 bs s)
  then show ?case
    by (auto split: sum.splits dest: alloc_chars_extends)
next
  case (6 ts s)
  then show ?case
    by (auto split: sum.splits if_splits intro: extends_trans [OF _ alloc_jsons_extends])
next
  case (7 kvs s)
  then show ?case
    by (auto split: sum.splits if_splits intro: extends_trans [OF _ alloc_entries_extends])
next
  case (10 t ts s)
  from "10.prems" obtain e sa es' where
    a: "build t s = Inr (e, sa)" and
    b: "build_elems ts sa = Inr (es', s1)"
    by (auto split: sum.splits)
  have "extends s sa"
    using "10.IH"(1) [OF a] .
  moreover have "extends sa s1"
    using "10.IH"(2) [OF a refl b] .
  ultimately show ?case
    by (rule extends_trans)
next
  case (12 kv kvs s)
  from "12.prems" obtain pk sa v sb pv sc ens' where
    a: "alloc_chars (fst kv @ [NUL]) s = Inr (pk, sa)" and
    b: "build (snd kv) sa = Inr (v, sb)" and
    c: "alloc_jsons [v] sb = Inr (pv, sc)" and
    d: "build_entries kvs sc = Inr (ens', s1)"
    by (auto split: sum.splits)
  have e1: "extends s sa"
    using a by (rule alloc_chars_extends)
  have e2: "extends sa sb"
    using "12.IH"(1) [OF a refl b] .
  have e3: "extends sb sc"
    using c by (rule alloc_jsons_extends)
  have e4: "extends sc s1"
    using "12.IH"(2) [OF a refl b refl c refl d] .
  show ?case
    using e1 e2 e3 e4 by (blast intro: extends_trans)
qed (auto simp add: extends_refl)

lemma build_elems_length: "build_elems ts s = Inr (es, s1) \<Longrightarrow> length es = length ts"
  by (induction ts arbitrary: s es) (auto split: sum.splits)

lemma build_entries_length: "build_entries kvs s = Inr (ens, s1) \<Longrightarrow> length ens = length kvs"
  by (induction kvs arbitrary: s ens) (auto split: sum.splits)

lemma alloc_chars_result:
  assumes "alloc_chars bs s = Inr (p, s')"
  shows "p = next_free s" "p \<noteq> - 1" "next_free s' = p + 1" "allocated s' = Suc (allocated s)"
    "chars (store s') p = Some bs" "jsons (store s') p = jsons (store s) p"
    "entries (store s') p = entries (store s) p"
  using assms by (auto simp add: alloc_chars_def split: if_splits)

lemma alloc_jsons_result:
  assumes "alloc_jsons es s = Inr (p, s')"
  shows "p = next_free s" "p \<noteq> - 1" "next_free s' = p + 1" "allocated s' = Suc (allocated s)"
    "jsons (store s') p = Some es" "chars (store s') p = chars (store s) p"
    "entries (store s') p = entries (store s) p" "length es < 2 ^ 64"
  using assms by (auto simp add: alloc_jsons_def split: if_splits)

lemma alloc_entries_result:
  assumes "alloc_entries es s = Inr (p, s')"
  shows "p = next_free s" "p \<noteq> - 1" "next_free s' = p + 1" "allocated s' = Suc (allocated s)"
    "entries (store s') p = Some es" "chars (store s') p = chars (store s) p"
    "jsons (store s') p = jsons (store s) p" "length es < 2 ^ 64"
  using assms by (auto simp add: alloc_entries_def split: if_splits)

lemma extends_below:
  assumes "extends s s'" and "x < next_free s"
  shows "chars (store s') x = chars (store s) x" "jsons (store s') x = jsons (store s) x"
    "entries (store s') x = entries (store s) x"
  using assms by (simp_all add: extends_def agree_def)

lemma extends_agree:
  assumes "extends s s'" and "b \<le> next_free s"
  shows "agree a b (store s) (store s')"
  using assms unfolding extends_def agree_def by (meson order_less_le_trans word_zero_le)

lemma pool_ok_next:
  assumes "pool_ok s"
  shows "chars (store s) (next_free s) = None" "jsons (store s) (next_free s) = None"
    "entries (store s) (next_free s) = None"
  using assms by (simp_all add: pool_ok_def)

lemma len_of_nat: "n < 2 ^ 64 \<Longrightarrow> unat (of_nat n :: 64 word) = n"
  by (simp add: unat_of_nat)

lemma json_free_leaf:
  "tag j \<noteq> Array \<Longrightarrow> tag j \<noteq> Object \<Longrightarrow> tag j \<noteq> String \<Longrightarrow> json_free (Suc n) j = (\<lambda>s. Inr s)"
  by (rule ext) simp

lemma json_free_empty:
  "tag j = Array \<and> JsonArray.len (array j) = 0 \<or> tag j = Object \<and> JsonObject.len (object j) = 0 \<Longrightarrow>
   json_free (Suc n) j = (\<lambda>s. Inr s)"
  by (rule ext) (auto simp add: Tag_defs)

lemma json_free_string: "tag j = String \<Longrightarrow> json_free (Suc n) j = free_chars (buf (string j))"
  by (rule ext) (simp add: Tag_defs)

lemma json_free_array:
  "tag j = Array \<Longrightarrow> JsonArray.len (array j) \<noteq> 0 \<Longrightarrow>
   json_free (Suc n) j =
     (\<lambda>s. case jsons (store s) (JsonArray.elems (array j)) of
        None \<Rightarrow> Inl BadRead
      | Some es \<Rightarrow>
          (case free_elems n (take (unat (JsonArray.len (array j))) es) s of
             Inl err \<Rightarrow> Inl err
           | Inr s' \<Rightarrow> free_jsons (JsonArray.elems (array j)) s'))"
  by (rule ext) simp

lemma json_free_object:
  "tag j = Object \<Longrightarrow> JsonObject.len (object j) \<noteq> 0 \<Longrightarrow>
   json_free (Suc n) j =
     (\<lambda>s. case entries (store s) (JsonObject.elems (object j)) of
        None \<Rightarrow> Inl BadRead
      | Some ens \<Rightarrow>
          (case free_entry_list n (take (unat (JsonObject.len (object j))) ens) s of
             Inl err \<Rightarrow> Inl err
           | Inr s' \<Rightarrow> free_entries (JsonObject.elems (object j)) s'))"
  by (rule ext) (simp add: Tag_defs)

subsection \<open>Releasing a range\<close>

lemma clear_empty: "clear a a h = h"
  by (auto simp add: clear_def fun_eq_iff intro!: heap.equality)

lemma released_none: "released a a 0 s = s"
  by (simp add: released_def clear_empty)

lemma clear_join: "a \<le> b \<Longrightarrow> b \<le> c \<Longrightarrow> clear b c (clear a b h) = clear a c h"
  by (auto simp add: clear_def fun_eq_iff)

lemma released_join:
  "a \<le> b \<Longrightarrow> b \<le> c \<Longrightarrow> released b c k2 (released a b k1 s) = released a c (k1 + k2) s"
  by (simp add: released_def clear_join)

lemma agree_sub: "agree a b h h' \<Longrightarrow> a \<le> a' \<Longrightarrow> b' \<le> b \<Longrightarrow> agree a' b' h h'"
  unfolding agree_def by (meson order.trans order_less_le_trans)

lemma agree_clear: "agree b c h h' \<Longrightarrow> agree b c h (clear a b h')"
  by (auto simp add: agree_def clear_def)

lemma agree_trans: "agree a b h h' \<Longrightarrow> agree a b h' h'' \<Longrightarrow> agree a b h h''"
  by (simp add: agree_def)

lemma agree_sym: "agree a b h h' \<Longrightarrow> agree a b h' h"
  by (simp add: agree_def)

lemma frees_skip: "frees (\<lambda>s. Inr s) h a a 0"
  by (simp add: frees_def released_none)

lemma frees_seq:
  assumes f: "frees f h a b k1" and g: "frees g h b c k2" and ab: "a \<le> b" and bc: "b \<le> c"
  shows "frees (\<lambda>s. case f s of Inl err \<Rightarrow> Inl err | Inr s' \<Rightarrow> g s') h a c (k1 + k2)"
  unfolding frees_def
proof (intro allI impI)
  fix s :: pool assume ag: "agree a c h (store s)"
  have "f s = Inr (released a b k1 s)"
    using f agree_sub [OF ag order_refl bc] by (simp add: frees_def)
  moreover have "agree b c h (store (released a b k1 s))"
    using agree_sub [OF ag ab order_refl] by (simp add: released_def agree_clear)
  then have "g (released a b k1 s) = Inr (released b c k2 (released a b k1 s))"
    using g by (simp add: frees_def)
  ultimately show "(case f s of Inl err \<Rightarrow> Inl err | Inr s' \<Rightarrow> g s') = Inr (released a c (k1 + k2) s)"
    by (simp add: released_join ab bc)
qed

lemma frees_heap: "frees f h a b k \<Longrightarrow> agree a b h h' \<Longrightarrow> frees f h' a b k"
  unfolding frees_def by (blast intro: agree_trans)

lemma frees_cong: "(\<And>s. f s = g s) \<Longrightarrow> frees g h a b k \<Longrightarrow> frees f h a b k"
  by (simp add: frees_def)

lemma frees_read_jsons:
  assumes "jsons h p = Some es" and "a \<le> p" and "p < c" and "frees (F es) h a c k"
  shows "frees (\<lambda>s. case jsons (store s) p of None \<Rightarrow> Inl BadRead | Some es \<Rightarrow> F es s) h a c k"
  using assms by (auto simp add: frees_def agree_def)

lemma frees_read_entries:
  assumes "entries h p = Some es" and "a \<le> p" and "p < c" and "frees (F es) h a c k"
  shows "frees (\<lambda>s. case entries (store s) p of None \<Rightarrow> Inl BadRead | Some es \<Rightarrow> F es s) h a c k"
  using assms by (auto simp add: frees_def agree_def)

lemma frees_load_json:
  assumes "jsons h p = Some [v]" and "a \<le> p" and "p < c" and "frees (F v) h a c k"
  shows "frees (\<lambda>s. case load_json (store s) p 0 of None \<Rightarrow> Inl BadRead | Some v \<Rightarrow> F v s) h a c k"
  using assms by (auto simp add: frees_def agree_def load_json_def)

lemma frees_free_chars:
  assumes "chars h p = Some bs" and "jsons h p = None" and "entries h p = None" and "p \<noteq> - 1"
  shows "frees (free_chars p) h p (p + 1) 1"
  unfolding frees_def
proof (intro allI impI)
  fix s :: pool assume "agree p (p + 1) h (store s)"
  then have "chars (store s) p = Some bs" "jsons (store s) p = None" "entries (store s) p = None"
    using assms by (simp_all add: agree_def word_succ_range)
  then show "free_chars p s = Inr (released p (p + 1) 1 s)"
    using assms(4)
    by (auto simp add: free_chars_def released_def clear_def word_succ_range fun_eq_iff
        intro!: heap.equality pool.equality)
qed

lemma frees_free_jsons:
  assumes "jsons h p = Some es" and "chars h p = None" and "entries h p = None" and "p \<noteq> - 1"
  shows "frees (free_jsons p) h p (p + 1) 1"
  unfolding frees_def
proof (intro allI impI)
  fix s :: pool assume "agree p (p + 1) h (store s)"
  then have "jsons (store s) p = Some es" "chars (store s) p = None" "entries (store s) p = None"
    using assms by (simp_all add: agree_def word_succ_range)
  then show "free_jsons p s = Inr (released p (p + 1) 1 s)"
    using assms(4)
    by (auto simp add: free_jsons_def released_def clear_def word_succ_range fun_eq_iff
        intro!: heap.equality pool.equality)
qed

lemma frees_free_entries:
  assumes "entries h p = Some es" and "chars h p = None" and "jsons h p = None" and "p \<noteq> - 1"
  shows "frees (free_entries p) h p (p + 1) 1"
  unfolding frees_def
proof (intro allI impI)
  fix s :: pool assume "agree p (p + 1) h (store s)"
  then have "entries (store s) p = Some es" "chars (store s) p = None" "jsons (store s) p = None"
    using assms by (simp_all add: agree_def word_succ_range)
  then show "free_entries p s = Inr (released p (p + 1) 1 s)"
    using assms(4)
    by (auto simp add: free_entries_def released_def clear_def word_succ_range fun_eq_iff
        intro!: heap.equality pool.equality)
qed

subsection \<open>The walk of \<^verbatim>\<open>json_free\<close> releases what was built\<close>

lemma free_build:
  "build t s = Inr (j, s1) \<Longrightarrow> pool_ok s \<Longrightarrow> depth t < n \<Longrightarrow>
     frees (json_free n j) (store s1) (next_free s) (next_free s1) (allocated s1 - allocated s)"
  "build_elems ts s = Inr (es, s1) \<Longrightarrow> pool_ok s \<Longrightarrow> \<forall>t\<in>set ts. depth t < n \<Longrightarrow>
     frees (free_elems n es) (store s1) (next_free s) (next_free s1) (allocated s1 - allocated s)"
  "build_entries kvs s = Inr (ens, s1) \<Longrightarrow> pool_ok s \<Longrightarrow> \<forall>kv\<in>set kvs. depth (snd kv) < n \<Longrightarrow>
     frees (free_entry_list n ens) (store s1) (next_free s) (next_free s1) (allocated s1 - allocated s)"
proof (induction t s and ts s and kvs s arbitrary: j s1 n and es s1 n and ens s1 n
    rule: build_build_elems_build_entries.induct)
  case (1 s)
  then obtain m where "n = Suc m" by (cases n) simp_all
  with 1 show ?case by (auto simp add: json_free_leaf Tag_defs frees_skip)
next
  case (2 s)
  then obtain m where "n = Suc m" by (cases n) simp_all
  with 2 show ?case by (auto simp add: json_free_leaf Tag_defs frees_skip)
next
  case (3 s)
  then obtain m where "n = Suc m" by (cases n) simp_all
  with 3 show ?case by (auto simp add: json_free_leaf Tag_defs frees_skip)
next
  case (4 x s)
  then obtain m where "n = Suc m" by (cases n) simp_all
  with 4 show ?case by (auto simp add: json_free_leaf Tag_defs frees_skip)
next
  case (5 bs s)
  then obtain m where n: "n = Suc m" by (cases n) simp_all
  from "5.prems"(1) obtain p where a: "alloc_chars (bs @ [NUL]) s = Inr (p, s1)"
    and j: "j = zero_json\<lparr>tag := String,
        string := \<lparr>JsonString.buf = p, JsonString.len = of_nat (length bs)\<rparr>\<rparr>"
    by (auto split: sum.splits)
  note r = alloc_chars_result [OF a]
  have "frees (free_chars p) (store s1) p (p + 1) 1"
    using r pool_ok_next [OF "5.prems"(2)] by (intro frees_free_chars) simp_all
  then show ?case
    using r by (simp add: n j json_free_string)
next
  case (6 ts s)
  then obtain m where n: "n = Suc m" by (cases n) simp_all
  from "6.prems"(1) obtain es sa where b: "build_elems ts s = Inr (es, sa)"
    by (auto split: sum.splits)
  have deep: "\<forall>t\<in>set ts. depth t < m"
  proof
    fix t assume "t \<in> set ts"
    then have "depth t \<le> max_list (map depth ts)"
      by (intro max_list_ge) simp
    then show "depth t < m"
      using "6.prems"(3) n by simp
  qed
  have IH: "frees (free_elems m es) (store sa) (next_free s) (next_free sa) (allocated sa - allocated s)"
    using "6.IH" [OF b "6.prems"(2) deep] .
  have ext: "extends s sa"
    using b by (rule build_extends)
  show ?case
  proof (cases "es = []")
    case True
    then have "ts = []"
      using build_elems_length [OF b] by simp
    with b True "6.prems"(1) have "s1 = s" and "j = zero_json\<lparr>tag := Array\<rparr>"
      by simp_all
    then show ?thesis
      by (simp add: n json_free_empty zero_json_def frees_skip)
  next
    case False
    with "6.prems"(1) b obtain p where a: "alloc_jsons es sa = Inr (p, s1)"
      and j: "j = zero_json\<lparr>tag := Array,
          array := \<lparr>JsonArray.elems = p, JsonArray.len = of_nat (length es)\<rparr>\<rparr>"
      by (auto split: sum.splits)
    note r = alloc_jsons_result [OF a]
    have ok: "pool_ok sa"
      using ext "6.prems"(2) by (simp add: extends_def)
    have len: "unat (of_nat (length es) :: 64 word) = length es"
      using r(8) by (rule len_of_nat)
    then have nz: "(of_nat (length es) :: 64 word) \<noteq> 0"
      using False by (metis length_0_conv unat_0)
    have le1: "next_free s \<le> p" and le2: "p \<le> p + 1" and lt: "p < p + 1"
      using ext r by (simp_all add: extends_def word_succ_le word_succ_less)
    have f1: "frees (free_elems m es) (store s1) (next_free s) p (allocated sa - allocated s)"
      using IH extends_agree [OF alloc_jsons_extends [OF a], of p "next_free s"] r(1)
      by (auto intro: frees_heap)
    have f2: "frees (free_jsons p) (store s1) p (p + 1) 1"
      using r pool_ok_next [OF ok] by (intro frees_free_jsons) simp_all
    have "frees (\<lambda>s. case free_elems m (take (length es) es) s of
            Inl err \<Rightarrow> Inl err | Inr s' \<Rightarrow> free_jsons p s')
      (store s1) (next_free s) (p + 1) (allocated sa - allocated s + 1)"
      using frees_seq [OF f1 f2 le1 le2] by simp
    then have "frees (\<lambda>s. case jsons (store s) p of None \<Rightarrow> Inl BadRead
        | Some es' \<Rightarrow> (case free_elems m (take (length es) es') s of
            Inl err \<Rightarrow> Inl err | Inr s' \<Rightarrow> free_jsons p s'))
      (store s1) (next_free s) (p + 1) (allocated sa - allocated s + 1)"
      by (rule frees_read_jsons [OF r(5) le1 lt])
    moreover have "allocated s \<le> allocated sa"
      using ext by (simp add: extends_def)
    then have "allocated s1 - allocated s = allocated sa - allocated s + 1"
      using r(4) by arith
    ultimately show ?thesis
      using r(3) by (simp add: n j json_free_array nz len cong: option.case_cong sum.case_cong)
  qed
next
  case (7 kvs s)
  then obtain m where n: "n = Suc m" by (cases n) simp_all
  from "7.prems"(1) obtain ens sa where b: "build_entries kvs s = Inr (ens, sa)"
    by (auto split: sum.splits)
  have deep: "\<forall>kv\<in>set kvs. depth (snd kv) < m"
  proof
    fix kv assume "kv \<in> set kvs"
    then have "depth (snd kv) \<le> max_list (map (\<lambda>kv. depth (snd kv)) kvs)"
      by (intro max_list_ge) simp
    then show "depth (snd kv) < m"
      using "7.prems"(3) n by simp
  qed
  have IH: "frees (free_entry_list m ens) (store sa) (next_free s) (next_free sa) (allocated sa - allocated s)"
    using "7.IH" [OF b "7.prems"(2) deep] .
  have ext: "extends s sa"
    using b by (rule build_extends)
  show ?case
  proof (cases "ens = []")
    case True
    then have "kvs = []"
      using build_entries_length [OF b] by simp
    with b True "7.prems"(1) have "s1 = s" and "j = zero_json\<lparr>tag := Object\<rparr>"
      by simp_all
    then show ?thesis
      by (simp add: n json_free_empty zero_json_def frees_skip)
  next
    case False
    with "7.prems"(1) b obtain p where a: "alloc_entries ens sa = Inr (p, s1)"
      and j: "j = zero_json\<lparr>tag := Object,
          object := \<lparr>JsonObject.elems = p, JsonObject.len = of_nat (length ens)\<rparr>\<rparr>"
      by (auto split: sum.splits)
    note r = alloc_entries_result [OF a]
    have ok: "pool_ok sa"
      using ext "7.prems"(2) by (simp add: extends_def)
    have len: "unat (of_nat (length ens) :: 64 word) = length ens"
      using r(8) by (rule len_of_nat)
    then have nz: "(of_nat (length ens) :: 64 word) \<noteq> 0"
      using False by (metis length_0_conv unat_0)
    have le1: "next_free s \<le> p" and le2: "p \<le> p + 1" and lt: "p < p + 1"
      using ext r by (simp_all add: extends_def word_succ_le word_succ_less)
    have f1: "frees (free_entry_list m ens) (store s1) (next_free s) p (allocated sa - allocated s)"
      using IH extends_agree [OF alloc_entries_extends [OF a], of p "next_free s"] r(1)
      by (auto intro: frees_heap)
    have f2: "frees (free_entries p) (store s1) p (p + 1) 1"
      using r pool_ok_next [OF ok] by (intro frees_free_entries) simp_all
    have "frees (\<lambda>s. case free_entry_list m (take (length ens) ens) s of
            Inl err \<Rightarrow> Inl err | Inr s' \<Rightarrow> free_entries p s')
      (store s1) (next_free s) (p + 1) (allocated sa - allocated s + 1)"
      using frees_seq [OF f1 f2 le1 le2] by simp
    then have "frees (\<lambda>s. case entries (store s) p of None \<Rightarrow> Inl BadRead
        | Some es' \<Rightarrow> (case free_entry_list m (take (length ens) es') s of
            Inl err \<Rightarrow> Inl err | Inr s' \<Rightarrow> free_entries p s'))
      (store s1) (next_free s) (p + 1) (allocated sa - allocated s + 1)"
      by (rule frees_read_entries [OF r(5) le1 lt])
    moreover have "allocated s \<le> allocated sa"
      using ext by (simp add: extends_def)
    then have "allocated s1 - allocated s = allocated sa - allocated s + 1"
      using r(4) by arith
    ultimately show ?thesis
      using r(3) by (simp add: n j json_free_object nz len cong: option.case_cong sum.case_cong)
  qed
next
  case (8 t s)
  then show ?case by simp
next
  case (9 s)
  then show ?case by (simp add: frees_skip)
next
  case (10 t ts s)
  from "10.prems"(1) obtain e sa es' where
    a: "build t s = Inr (e, sa)" and
    b: "build_elems ts sa = Inr (es', s1)" and
    es: "es = e # es'"
    by (auto split: sum.splits)
  have e1: "extends s sa"
    using a by (rule build_extends)
  have e2: "extends sa s1"
    using b by (rule build_extends)
  have ok: "pool_ok sa"
    using e1 "10.prems"(2) by (simp add: extends_def)
  have f1: "frees (json_free n e) (store s1) (next_free s) (next_free sa) (allocated sa - allocated s)"
    using "10.IH"(1) [OF a "10.prems"(2)] "10.prems"(3) extends_agree [OF e2 order_refl]
    by (auto intro: frees_heap)
  have f2: "frees (free_elems n es') (store s1) (next_free sa) (next_free s1) (allocated s1 - allocated sa)"
    using "10.IH"(2) [OF a refl b ok] "10.prems"(3) by simp
  have "allocated s \<le> allocated sa" and "allocated sa \<le> allocated s1"
    using e1 e2 by (simp_all add: extends_def)
  then have "allocated sa - allocated s + (allocated s1 - allocated sa) = allocated s1 - allocated s"
    by arith
  with frees_seq [OF f1 f2] e1 e2 show ?case
    by (simp add: es extends_def)
next
  case (11 s)
  then show ?case by (simp add: frees_skip)
next
  case (12 kv kvs s)
  from "12.prems"(1) obtain pk sa v sb pv sc ens' where
    a: "alloc_chars (fst kv @ [NUL]) s = Inr (pk, sa)" and
    b: "build (snd kv) sa = Inr (v, sb)" and
    c: "alloc_jsons [v] sb = Inr (pv, sc)" and
    d: "build_entries kvs sc = Inr (ens', s1)" and
    ens: "ens = \<lparr>key = \<lparr>JsonString.buf = pk, JsonString.len = of_nat (length (fst kv))\<rparr>,
                  val = pv\<rparr> # ens'"
    by (auto split: sum.splits)
  note ra = alloc_chars_result [OF a] and rc = alloc_jsons_result [OF c]
  have e1: "extends s sa"
    using a by (rule alloc_chars_extends)
  have e2: "extends sa sb"
    using b by (rule build_extends)
  have e3: "extends sb sc"
    using c by (rule alloc_jsons_extends)
  have e4: "extends sc s1"
    using d by (rule build_extends)
  have e24: "extends sa s1" and e34: "extends sb s1"
    using e2 e3 e4 by (blast intro: extends_trans)+
  have ok_a: "pool_ok sa" and ok_b: "pool_ok sb" and ok_c: "pool_ok sc"
    using e1 e2 e3 "12.prems"(2) by (simp_all add: extends_def)
  have n_sa: "next_free sa = pk + 1" and n_sc: "next_free sc = pv + 1"
    and pk: "pk = next_free s" and pv: "pv = next_free sb"
    using ra rc by simp_all
  have les: "pk \<le> pk + 1" "pk + 1 \<le> pv" "pv \<le> pv + 1" "pv + 1 \<le> next_free s1" "pv < pv + 1"
    "pk < pk + 1"
    using e2 e4 ra(2) rc(2) n_sa n_sc pv by (simp_all add: extends_def word_succ_le word_succ_less)
  have f1: "frees (free_chars pk) (store s1) pk (pk + 1) 1"
  proof (intro frees_free_chars)
    show "chars (store s1) pk = Some (fst kv @ [NUL])"
      using extends_below(1) [OF e24, of pk] ra les n_sa by simp
    show "jsons (store s1) pk = None"
      using extends_below(2) [OF e24, of pk] ra les n_sa pool_ok_next [OF "12.prems"(2)] by simp
    show "entries (store s1) pk = None"
      using extends_below(3) [OF e24, of pk] ra les n_sa pool_ok_next [OF "12.prems"(2)] by simp
    show "pk \<noteq> - 1"
      using ra by simp
  qed
  have f2: "frees (json_free n v) (store s1) (pk + 1) pv (allocated sb - allocated sa)"
    using "12.IH"(1) [OF a refl b ok_a] "12.prems"(3) extends_agree [OF e34 order_refl] n_sa pv
    by (auto intro: frees_heap)
  have f3: "frees (free_jsons pv) (store s1) pv (pv + 1) 1"
  proof (intro frees_free_jsons)
    show "jsons (store s1) pv = Some [v]"
      using extends_below(2) [OF e4, of pv] rc les n_sc by simp
    show "chars (store s1) pv = None"
      using extends_below(1) [OF e4, of pv] rc les n_sc pool_ok_next [OF ok_b] by simp
    show "entries (store s1) pv = None"
      using extends_below(3) [OF e4, of pv] rc les n_sc pool_ok_next [OF ok_b] by simp
    show "pv \<noteq> - 1"
      using rc by simp
  qed
  have f4: "frees (free_entry_list n ens') (store s1) (pv + 1) (next_free s1) (allocated s1 - allocated sc)"
    using "12.IH"(2) [OF a refl b refl c refl d ok_c] "12.prems"(3) n_sc by simp
  have jv: "jsons (store s1) pv = Some [v]"
    using extends_below(2) [OF e4, of pv] rc les n_sc by simp
  have f34: "frees (\<lambda>s. case free_jsons pv s of Inl err \<Rightarrow> Inl err
        | Inr s' \<Rightarrow> free_entry_list n ens' s')
      (store s1) pv (next_free s1) (1 + (allocated s1 - allocated sc))"
    using frees_seq [OF f3 f4 les(3) les(4)] .
  have f234: "frees (\<lambda>s. case json_free n v s of Inl err \<Rightarrow> Inl err
        | Inr s2 \<Rightarrow> (case free_jsons pv s2 of Inl err \<Rightarrow> Inl err
            | Inr s' \<Rightarrow> free_entry_list n ens' s'))
      (store s1) (pk + 1) (next_free s1)
      (allocated sb - allocated sa + (1 + (allocated s1 - allocated sc)))"
    using frees_seq [OF f2 f34 les(2)] les(3) les(4) by simp
  have g: "frees (\<lambda>s. case load_json (store s) pv 0 of None \<Rightarrow> Inl BadRead
        | Some v \<Rightarrow> (case json_free n v s of Inl err \<Rightarrow> Inl err
            | Inr s2 \<Rightarrow> (case free_jsons pv s2 of Inl err \<Rightarrow> Inl err
                | Inr s' \<Rightarrow> free_entry_list n ens' s')))
      (store s1) (pk + 1) (next_free s1)
      (allocated sb - allocated sa + (1 + (allocated s1 - allocated sc)))"
    using jv les f234 by (intro frees_load_json) auto
  have le_end: "pk + 1 \<le> next_free s1"
    using les by simp
  have "allocated sa \<le> allocated sb" and "allocated sc \<le> allocated s1"
    using e2 e4 by (simp_all add: extends_def)
  then have count: "1 + (allocated sb - allocated sa + (1 + (allocated s1 - allocated sc))) =
      allocated s1 - allocated s"
    using ra(4) rc(4) by arith
  show ?case
    using frees_seq [OF f1 g les(1) le_end] count
    by (simp add: ens pk cong: option.case_cong sum.case_cong)
qed

lemma clear_built:
  assumes ok: "pool_ok s" and ext: "extends s s1"
  shows "clear (next_free s) (next_free s1) (store s1) = store s"
proof -
  have ok1: "pool_ok s1"
    using ok ext by (simp add: extends_def)
  have le: "next_free s \<le> next_free s1"
    using ext by (simp add: extends_def)
  have "chars (clear (next_free s) (next_free s1) (store s1)) x = chars (store s) x \<and>
        jsons (clear (next_free s) (next_free s1) (store s1)) x = jsons (store s) x \<and>
        entries (clear (next_free s) (next_free s1) (store s1)) x = entries (store s) x" for x
  proof (cases "x < next_free s")
    case True
    then show ?thesis
      using extends_below [OF ext True] by (auto simp add: clear_def)
  next
    case False
    then have a: "next_free s \<le> x"
      by simp
    show ?thesis
    proof (cases "x < next_free s1")
      case True
      then show ?thesis
        using a ok by (auto simp add: clear_def pool_ok_def)
    next
      case False
      then have "next_free s1 \<le> x"
        by simp
      then show ?thesis
        using a ok ok1 False by (auto simp add: clear_def pool_ok_def)
    qed
  qed
  then show ?thesis
    by (intro heap.equality) (simp_all add: fun_eq_iff)
qed

lemma pool_ok_empty: "pool_ok empty_pool"
  by (simp add: pool_ok_def empty_pool_def empty_heap_def)

text \<open>
  C8: for every text that parses, releasing the root returned by \<^verbatim>\<open>json_deserialize\<close>
  succeeds (no release hits an allocation that is not live: no double free), leaves the
  store exactly as it was before the call of \<^verbatim>\<open>json_deserialize\<close> (every allocation made
  for the tree is released: no leak, and no other allocation is touched), and makes as many
  releases as \<^verbatim>\<open>json_deserialize\<close> made allocations (each is released exactly once). The
  fuel only has to exceed the depth of the tree.
\<close>

theorem json_free_deserialize:
  assumes "parse text = Some t"
    and "pool_ok s"
    and "json_deserialize parse text s = Inr (root, s1)"
    and "depth t < n"
  shows "\<exists>s2. json_free n root s1 = Inr s2 \<and>
           store s2 = store s \<and>
           freed s2 - freed s = allocated s1 - allocated s \<and>
           allocated s2 = allocated s1 \<and> pool_ok s2"
proof -
  have b: "build t s = Inr (root, s1)"
    using assms(1,3) by (simp add: json_deserialize_def)
  have ext: "extends s s1"
    using b by (rule build_extends)
  have "frees (json_free n root) (store s1) (next_free s) (next_free s1) (allocated s1 - allocated s)"
    using b assms(2,4) by (rule free_build)
  then have run: "json_free n root s1 =
      Inr (released (next_free s) (next_free s1) (allocated s1 - allocated s) s1)"
    by (simp add: frees_def agree_def)
  let ?s2 = "released (next_free s) (next_free s1) (allocated s1 - allocated s) s1"
  have st: "store ?s2 = store s"
    using clear_built [OF assms(2) ext] by (simp add: released_def)
  have "freed ?s2 - freed s = allocated s1 - allocated s"
    using ext by (simp add: released_def extends_def)
  moreover have "allocated ?s2 = allocated s1"
    by (simp add: released_def)
  moreover have "pool_ok ?s2"
    unfolding pool_ok_def
  proof (intro allI impI)
    fix x assume "next_free ?s2 \<le> x"
    then have "next_free s1 \<le> x"
      by (simp add: released_def)
    moreover have "next_free s \<le> next_free s1"
      using ext by (simp add: extends_def)
    ultimately have "next_free s \<le> x"
      by (rule order_trans [rotated])
    then show "chars (store ?s2) x = None \<and> jsons (store ?s2) x = None \<and>
        entries (store ?s2) x = None"
      using assms(2) unfolding st by (simp add: pool_ok_def)
  qed
  ultimately show ?thesis
    using run st by blast
qed

theorem json_free_deserialize_witness:
  "pool_ok empty_pool \<and>
   (case json_deserialize sample_parse sample_text empty_pool of
      Inl err \<Rightarrow> False
    | Inr (root, s1) \<Rightarrow>
        allocated s1 = 4 \<and>
        (case json_free 3 root s1 of
           Inl err \<Rightarrow> False
         | Inr s2 \<Rightarrow> store s2 = empty_heap \<and> freed s2 = 4))"
proof -
  let ?t = "TObject [(''k'', TArray [TNumber double_12, TNull])]"
  have p: "sample_parse sample_text = Some ?t"
    by (simp add: sample_parse_def)
  obtain root s1 where d: "json_deserialize sample_parse sample_text empty_pool = Inr (root, s1)"
    and a: "allocated s1 = 4"
    by (simp add: json_deserialize_def p alloc_chars_def alloc_jsons_def alloc_entries_def
        empty_pool_def)
  have n: "depth ?t < 3"
    by simp
  from json_free_deserialize [OF p pool_ok_empty d n] obtain s2
    where "json_free 3 root s1 = Inr s2" and "store s2 = store empty_pool"
      and "freed s2 - freed empty_pool = allocated s1 - allocated empty_pool"
    by blast
  then show ?thesis
    using d a pool_ok_empty by (simp add: empty_pool_def)
qed

end
